theory Spec2Isabelle
  imports Complex_Main "HOL-Library.Log_Nat" "HOL-Library.Word"
begin

unbundle bit_operations_syntax

section \<open>Python exceptions\<close>

text \<open>
  The exceptions that occur in \<^verbatim>\<open>screen_recorder.py\<close>. \<^verbatim>\<open>sys.exit(n)\<close> raises
  \<^verbatim>\<open>SystemExit(n)\<close>. \<^verbatim>\<open>SystemExit\<close> and \<^verbatim>\<open>KeyboardInterrupt\<close> derive from
  \<^verbatim>\<open>BaseException\<close> only, so a handler \<^verbatim>\<open>except Exception\<close> lets them through.
\<close>

datatype exn =
    IndexError
  | ValueError
  | FileNotFoundError
  | ZeroDivisionError
  | Cv2Error
  | KeyboardInterrupt
  | SystemExit int

fun is_Exception :: "exn \<Rightarrow> bool" where
  "is_Exception KeyboardInterrupt = False"
| "is_Exception (SystemExit n) = False"
| "is_Exception e = True"

section \<open>Binary64 arithmetic\<close>

text \<open>
  NumPy's \<^verbatim>\<open>float64\<close> and Python's \<^verbatim>\<open>float\<close> are IEEE 754 binary64 numbers. A finite
  binary64 number is a rational, and every arithmetic operation returns the exact result
  rounded to the nearest number with a 53-bit significand, ties to the even significand.
  \<open>fl\<close> is that rounding. The exponent is not bounded here: overflow, subnormal numbers,
  infinities and NaN are outside the model.
\<close>

type_synonym f64 = rat

definition ilog2 :: "rat \<Rightarrow> int" where
  \<comment> \<open>the exponent \<open>e\<close> with \<open>2 powi e \<le> x < 2 powi (e + 1)\<close>, for \<open>0 < x\<close>\<close>
  "ilog2 x = (case quotient_of x of (p, q) \<Rightarrow>
     let k = bitlen p - bitlen q in if 2 powi k \<le> x then k else k - 1)"

definition round_half_even :: "rat \<Rightarrow> int" where
  "round_half_even x =
     (let n = \<lfloor>x\<rfloor>; d = x - of_int n
      in if d < 1 / 2 then n else if 1 / 2 < d then n + 1 else if even n then n else n + 1)"

definition fl :: "rat \<Rightarrow> f64" where
  "fl x = (if x = 0 then 0
           else let q = 2 powi (ilog2 \<bar>x\<bar> - 52) in of_int (round_half_even (x / q)) * q)"

definition f64_add :: "f64 \<Rightarrow> f64 \<Rightarrow> f64" where
  "f64_add a b = fl (a + b)"

definition f64_sub :: "f64 \<Rightarrow> f64 \<Rightarrow> f64" where
  "f64_sub a b = fl (a - b)"

definition f64_mul :: "f64 \<Rightarrow> f64 \<Rightarrow> f64" where
  "f64_mul a b = fl (a * b)"

definition f64_div :: "f64 \<Rightarrow> f64 \<Rightarrow> f64" where
  \<comment> \<open>the divisor is not zero at any use\<close>
  "f64_div a b = fl (a / b)"

definition py_float_div :: "f64 \<Rightarrow> f64 \<Rightarrow> exn + f64" where
  \<comment> \<open>Python's \<^verbatim>\<open>/\<close> on two floats raises on a zero divisor\<close>
  "py_float_div a b = (if b = 0 then Inl ZeroDivisionError else Inr (f64_div a b))"

type_synonym u8 = "8 word"

definition of_u8 :: "u8 \<Rightarrow> f64" where
  \<comment> \<open>the promotion of a \<^verbatim>\<open>uint8\<close> to \<^verbatim>\<open>float64\<close>, which is exact\<close>
  "of_u8 w = of_nat (unat w)"

definition astype_u8 :: "f64 \<Rightarrow> u8" where
  \<comment> \<open>\<^verbatim>\<open>.astype(np.uint8)\<close>: the fraction is dropped (towards zero), then the low eight bits
      kept; the values converted here lie in \<open>[0, 256)\<close>, lemma \<open>blend_value_in_range\<close>\<close>
  "astype_u8 v = word_of_int (if 0 \<le> v then \<lfloor>v\<rfloor> else \<lceil>v\<rceil>)"

section \<open>Arrays\<close>

text \<open>
  An image is a NumPy array of shape \<open>(height, width, channels)\<close>: a list of rows, each a list
  of pixels, each a list of channel values. NumPy arrays are rectangular, which \<open>rect\<close> says.
\<close>

type_synonym 'a array2 = "'a list list"
type_synonym 'a array3 = "'a list list list"

definition rect :: "nat \<Rightarrow> nat \<Rightarrow> nat \<Rightarrow> 'a array3 \<Rightarrow> bool" where
  "rect h w c a \<longleftrightarrow>
     length a = h \<and> list_all (\<lambda>row. length row = w \<and> list_all (\<lambda>p. length p = c) row) a"

definition shape2 :: "'a list list \<Rightarrow> int \<times> int" where
  \<comment> \<open>\<^verbatim>\<open>a.shape[:2]\<close>; an array without rows keeps no width here, and none is needed then\<close>
  "shape2 a = (int (length a), case a of [] \<Rightarrow> 0 | row # _ \<Rightarrow> int (length row))"

definition py_index :: "int \<Rightarrow> nat \<Rightarrow> nat" where
  \<comment> \<open>a slice bound on an axis of length \<open>n\<close>: negative bounds count from the end, all are clipped\<close>
  "py_index i n = (if i < 0 then nat (max 0 (int n + i)) else min (nat i) n)"

definition py_slice :: "int \<Rightarrow> int \<Rightarrow> 'a list \<Rightarrow> 'a list" where
  \<comment> \<open>\<^verbatim>\<open>xs[i:j]\<close>\<close>
  "py_slice i j xs =
     (let a = py_index i (length xs); b = py_index j (length xs) in take (b - a) (drop a xs))"

definition slice2 :: "int \<Rightarrow> int \<Rightarrow> int \<Rightarrow> int \<Rightarrow> 'a list list \<Rightarrow> 'a list list" where
  \<comment> \<open>\<^verbatim>\<open>a[r1:r2, c1:c2]\<close>\<close>
  "slice2 r1 r2 c1 c2 a = map (py_slice c1 c2) (py_slice r1 r2 a)"

definition same_shape :: "'a array3 \<Rightarrow> 'b array3 \<Rightarrow> bool" where
  "same_shape a b \<longleftrightarrow> map (map length) a = map (map length) b"

definition set_slice :: "int \<Rightarrow> int \<Rightarrow> 'a list \<Rightarrow> 'a list \<Rightarrow> 'a list" where
  \<comment> \<open>\<^verbatim>\<open>xs[i:j] = v\<close> for a \<open>v\<close> as long as the slice\<close>
  "set_slice i j xs v =
     (let a = py_index i (length xs); b = py_index j (length xs)
      in take a xs @ v @ drop (max a b) xs)"

definition set_slice2 ::
  "int \<Rightarrow> int \<Rightarrow> int \<Rightarrow> int \<Rightarrow> 'a array3 \<Rightarrow> 'a array3 \<Rightarrow> exn + 'a array3" where
  \<comment> \<open>\<^verbatim>\<open>a[r1:r2, c1:c2] = v\<close>: a value of another shape than the slice is a \<^verbatim>\<open>ValueError\<close>\<close>
  "set_slice2 r1 r2 c1 c2 a v =
     (if same_shape (slice2 r1 r2 c1 c2 a) v
      then Inr (set_slice r1 r2 a (map2 (set_slice c1 c2) (py_slice r1 r2 a) v))
      else Inl ValueError)"

definition map3 :: "('a \<Rightarrow> 'b) \<Rightarrow> 'a array3 \<Rightarrow> 'b array3" where
  "map3 f a = map (map (map f)) a"

definition elementwise :: "('a \<Rightarrow> 'b \<Rightarrow> 'c) \<Rightarrow> 'a array3 \<Rightarrow> 'b array3 \<Rightarrow> exn + 'c array3" where
  \<comment> \<open>a binary operator on two arrays; operands of different shapes are a \<^verbatim>\<open>ValueError\<close>
      (NumPy would stretch an axis of length 1 first; the operands that \<open>blend_roi\<close> builds
      from rectangular images have equal shapes, lemma \<open>blend_roi_rect\<close>)\<close>
  "elementwise f a b =
     (if same_shape a b then Inr (map2 (map2 (map2 f)) a b) else Inl ValueError)"

definition last_axis_index :: "nat \<Rightarrow> 'a array3 \<Rightarrow> exn + 'a array2" where
  \<comment> \<open>\<^verbatim>\<open>a[..., k]\<close>\<close>
  "last_axis_index k a =
     (if list_all (list_all (\<lambda>p. k < length p)) a then Inr (map (map (\<lambda>p. p ! k)) a)
      else Inl IndexError)"

definition last_axis_upto :: "nat \<Rightarrow> 'a array3 \<Rightarrow> 'a array3" where
  \<comment> \<open>\<^verbatim>\<open>a[..., :k]\<close>\<close>
  "last_axis_upto k a = map (map (take k)) a"

definition dstack_copies :: "nat \<Rightarrow> 'a array2 \<Rightarrow> 'a array3" where
  \<comment> \<open>\<^verbatim>\<open>np.dstack([m] * n)\<close>\<close>
  "dstack_copies n m = map (map (replicate n)) m"

section \<open>The compositor: \<^verbatim>\<open>overlay_image_alpha\<close>\<close>

text \<open>
  Every \<^verbatim>\<open>print\<close> of the program is one constructor, with the values its f-string
  interpolates.
\<close>

datatype line =
    Error_during_overlay exn
  | Coords int int "int \<times> int" "int \<times> int" "int \<times> int" "int \<times> int"
  | Error_could_not_load string
  | Info_default_cursor_not_found
  | Error_invalid_monitor_index int
  | Available_monitors_1_to int
  | Error_setting_up_monitor exn
  | Recording_monitor int int int string f64
  | Press_F5_to_stop
  | Recording_stopped_by_user
  | Cleaning_up_and_saving_video
  | Video_saved_to string

text \<open>
  The function reads two arrays and writes into the first. The state holds both, and the
  standard output, so that the model shows what a call leaves behind in each of them.
  The two arrays are separate buffers, as they are in \<^verbatim>\<open>main\<close>, where the frame is made anew
  by \<^verbatim>\<open>cv2.cvtColor\<close> in every cycle and the sprite once by \<^verbatim>\<open>cv2.resize\<close>. The docstring
  gives the frame in BGR format (three channels) and the sprite in BGRA format (four); the
  arrays of the model may have any number of channels, and a sprite without a fourth one
  is the \<^verbatim>\<open>IndexError\<close> of line 122.
\<close>

record bufs =
  screen :: "u8 array3"
  cursor :: "u8 array3"
  stdout :: "line list"

definition blend_roi :: "u8 array3 \<Rightarrow> u8 array3 \<Rightarrow> exn + u8 array3" where
  \<comment> \<open>lines 121 to 127 and the \<^verbatim>\<open>astype\<close> of line 130\<close>
  "blend_roi cursor_roi screen_roi =
     (let cursor_rgb = last_axis_upto 3 cursor_roi in
      case last_axis_index 3 cursor_roi of
        Inl e \<Rightarrow> Inl e
      | Inr alpha_chan \<Rightarrow>
          let alpha_mask = map (map (\<lambda>a. f64_div (of_u8 a) 255)) alpha_chan;
              alpha_mask = dstack_copies 3 alpha_mask
          in case elementwise f64_mul (map3 (f64_sub 1) alpha_mask) (map3 of_u8 screen_roi) of
               Inl e \<Rightarrow> Inl e
             | Inr bg \<Rightarrow>
                 (case elementwise f64_mul alpha_mask (map3 of_u8 cursor_rgb) of
                    Inl e \<Rightarrow> Inl e
                  | Inr fg \<Rightarrow>
                      (case elementwise f64_add bg fg of
                         Inl e \<Rightarrow> Inl e
                       | Inr blended_roi \<Rightarrow> Inr (map3 astype_u8 blended_roi))))"

definition overlay_image_alpha :: "bufs \<Rightarrow> int \<Rightarrow> int \<Rightarrow> exn + bufs" where
  "overlay_image_alpha st x y =
     (let (screen_h, screen_w) = shape2 (screen st);
          (cursor_h, cursor_w) = shape2 (cursor st);
          cur_box_x1 = max 0 x;
          cur_box_y1 = max 0 y;
          cur_box_x2 = min screen_w (x + cursor_w);
          cur_box_y2 = min screen_h (y + cursor_h);
          cur_box_w = cur_box_x2 - cur_box_x1;
          cur_box_h = cur_box_y2 - cur_box_y1
      in if cur_box_w \<le> 0 \<or> cur_box_h \<le> 0 then Inr st
         else
           let cur_img_x1 = max 0 (- x);
               cur_img_y1 = max 0 (- y);
               cur_img_x2 = cur_img_x1 + cur_box_w;
               cur_img_y2 = cur_img_y1 + cur_box_h;
               cursor_roi = slice2 cur_img_y1 cur_img_y2 cur_img_x1 cur_img_x2 (cursor st);
               screen_roi = slice2 cur_box_y1 cur_box_y2 cur_box_x1 cur_box_x2 (screen st);
               body = (case blend_roi cursor_roi screen_roi of
                         Inl e \<Rightarrow> Inl e
                       | Inr blended \<Rightarrow>
                           set_slice2 cur_box_y1 cur_box_y2 cur_box_x1 cur_box_x2
                             (screen st) blended)
           in case body of
                Inr screen' \<Rightarrow> Inr (st\<lparr>screen := screen'\<rparr>)
              | Inl e \<Rightarrow>
                  if is_Exception e
                  then Inr (st\<lparr>stdout := stdout st @
                         [Error_during_overlay e,
                          Coords x y (cur_box_y1, cur_box_y2) (cur_box_x1, cur_box_x2)
                            (cur_img_y1, cur_img_y2) (cur_img_x1, cur_img_x2)]\<rparr>)
                  else Inl e)"


subsection \<open>What the blend is meant to compute\<close>

text \<open>
  The specification's formula for one channel of one pixel,
  \<^verbatim>\<open>dst = (1 - a) * frame_pixel + a * sprite_color\<close> with \<^verbatim>\<open>a = alpha / 255\<close>, every
  operation in binary64 as written, the result truncated to eight bits. \<open>blend_pixel\<close> applies
  it to the three colour channels of a frame pixel under a BGRA sprite pixel.
\<close>

definition alpha_composite :: "u8 \<Rightarrow> u8 \<Rightarrow> u8 \<Rightarrow> u8" where
  "alpha_composite alpha frame_pixel sprite_color =
     (let a = f64_div (of_u8 alpha) 255
      in astype_u8 (f64_add (f64_mul (f64_sub 1 a) (of_u8 frame_pixel))
                            (f64_mul a (of_u8 sprite_color))))"

definition blend_pixel :: "u8 list \<Rightarrow> u8 list \<Rightarrow> u8 list" where
  "blend_pixel bg fg = map2 (alpha_composite (fg ! 3)) bg (take 3 fg)"

definition covered :: "int \<Rightarrow> int \<Rightarrow> nat \<Rightarrow> nat \<Rightarrow> nat \<Rightarrow> nat \<Rightarrow> bool" where
  \<comment> \<open>row \<open>r\<close>, column \<open>k\<close> lies under a sprite of \<open>ch\<close> rows and \<open>cw\<close> columns placed at \<open>(x, y)\<close>\<close>
  "covered x y ch cw r k \<longleftrightarrow>
     y \<le> int r \<and> int r < y + int ch \<and> x \<le> int k \<and> int k < x + int cw"

section \<open>The command line\<close>

text \<open>
  \<open>cli\<close> is what the user typed: an option that is absent is \<open>None\<close>. \<open>setup_arguments\<close>
  fills in the defaults of the \<^verbatim>\<open>add_argument\<close> calls and gives the \<^verbatim>\<open>Namespace\<close>.
\<close>

record cli =
  opt_monitor :: "int option"
  opt_fps :: "f64 option"
  opt_cursor :: "string option"
  opt_output :: "string option"
  opt_size :: "int option"
  opt_no_cursor :: bool

record args =
  arg_monitor :: int
  arg_fps :: f64
  arg_cursor :: string
  arg_output :: string
  arg_size :: int
  arg_no_cursor :: bool

definition setup_arguments :: "cli \<Rightarrow> args" where
  "setup_arguments c =
     \<lparr>arg_monitor = (case opt_monitor c of None \<Rightarrow> 1 | Some m \<Rightarrow> m),
      arg_fps = (case opt_fps c of None \<Rightarrow> 30 | Some f \<Rightarrow> f),
      arg_cursor = (case opt_cursor c of None \<Rightarrow> ''cursor.png'' | Some p \<Rightarrow> p),
      arg_output = (case opt_output c of None \<Rightarrow> ''screen_record.mp4'' | Some p \<Rightarrow> p),
      arg_size = (case opt_size c of None \<Rightarrow> 32 | Some n \<Rightarrow> n),
      arg_no_cursor = opt_no_cursor c\<rparr>"

section \<open>\<^verbatim>\<open>get_codec\<close>\<close>

definition endswith :: "string \<Rightarrow> string \<Rightarrow> bool" where
  \<comment> \<open>\<^verbatim>\<open>s.endswith(suffix)\<close>\<close>
  "endswith s suffix \<longleftrightarrow>
     length suffix \<le> length s \<and> drop (length s - length suffix) s = suffix"

text \<open>
  \<^verbatim>\<open>cv2.VideoWriter_fourcc\<close> belongs to OpenCV; it is the parameter \<open>fourcc\<close>.
\<close>

definition get_codec :: "(char \<Rightarrow> char \<Rightarrow> char \<Rightarrow> char \<Rightarrow> 'codec) \<Rightarrow> string \<Rightarrow> 'codec" where
  "get_codec fourcc filename =
     (if endswith filename ''.mp4'' then fourcc CHR ''m'' CHR ''p'' CHR ''4'' CHR ''v''
      else fourcc CHR ''X'' CHR ''V'' CHR ''I'' CHR ''D'')"

section \<open>The setup steps of \<^verbatim>\<open>main\<close>\<close>

text \<open>
  The world outside the program: the file system and OpenCV's image reader, and the list of
  monitors that \<^verbatim>\<open>mss\<close> reports, whose entry 0 is the union of all monitors.
\<close>

record monitor =
  mon_left :: int
  mon_top :: int
  mon_width :: int
  mon_height :: int

record env =
  path_exists :: "string \<Rightarrow> bool"
  imread :: "string \<Rightarrow> u8 array3 option"
  resize :: "u8 array3 \<Rightarrow> int \<times> int \<Rightarrow> exn + u8 array3"
  monitors :: "monitor list"
  VideoWriter_fourcc :: "char \<Rightarrow> char \<Rightarrow> char \<Rightarrow> char \<Rightarrow> int"

definition load_cursor :: "env \<Rightarrow> args \<Rightarrow> (exn + u8 array3 option) \<times> line list" where
  \<comment> \<open>lines 140 to 159; \<^verbatim>\<open>cv2.imread\<close> returns \<^verbatim>\<open>None\<close> for a file it cannot decode\<close>
  "load_cursor ev a =
     (let cursor_path = arg_cursor a
      in if path_exists ev cursor_path
         then
           let body = (case imread ev (arg_cursor a) of
                         None \<Rightarrow> Inl FileNotFoundError
                       | Some cursor_img \<Rightarrow>
                           (case resize ev cursor_img (arg_size a, arg_size a) of
                              Inl e \<Rightarrow> Inl e
                            | Inr resized \<Rightarrow> Inr (Some resized)))
           in case body of
                Inl e \<Rightarrow>
                  if e = FileNotFoundError
                  then (Inl (SystemExit 1), [Error_could_not_load (arg_cursor a)])
                  else (Inl e, [])
              | Inr cursor_img \<Rightarrow> (Inr cursor_img, [])
         else (Inr None, [Info_default_cursor_not_found]))"

definition setup_monitor :: "env \<Rightarrow> args \<Rightarrow> (exn + monitor) \<times> line list" where
  \<comment> \<open>lines 163 to 183: the \<^verbatim>\<open>try\<close> body, then the handler \<^verbatim>\<open>except Exception\<close>\<close>
  "setup_monitor ev a =
     (let body =
            (if arg_monitor a < 0 \<or> arg_monitor a \<ge> int (length (monitors ev))
             then (Inl (SystemExit 1),
                   [Error_invalid_monitor_index (arg_monitor a),
                    Available_monitors_1_to (int (length (monitors ev)) - 1)])
             else (Inr (monitors ev ! nat (arg_monitor a)), []))
      in case fst body of
           Inl e \<Rightarrow>
             if is_Exception e
             then (Inl (SystemExit 1), snd body @ [Error_setting_up_monitor e])
             else body
         | Inr m \<Rightarrow> body)"

section \<open>The recording loop\<close>

text \<open>
  One \<open>cycle\<close> is what the world answers during one pass of the loop: the two readings of
  the clock, the grabbed BGRA frame, the pointer position, the key that \<^verbatim>\<open>cv2.waitKey\<close>
  returns, the flag the hotkey listener sets, and the visibility of the preview window.
  The loop ends when the world asks for it, so the model runs it over a finite list of
  cycles and says in which \<open>status\<close> the list leaves it.
\<close>

record cycle =
  t_start :: f64
  grab :: "u8 array3"
  mouse :: "int \<times> int"
  key :: int
  stop_recording :: bool
  live_visible :: f64
  t_end :: f64

datatype status = Running | Stopped | Raised exn

record recording =
  video :: "u8 array3 list"
  preview :: "u8 array3 list"
  sleeps :: "f64 option list"
  printed :: "line list"

definition cvtColor_BGRA2BGR :: "u8 array3 \<Rightarrow> u8 array3" where
  "cvtColor_BGRA2BGR frame = last_axis_upto 3 frame"

definition stop_requested :: "cycle \<Rightarrow> bool" where
  \<comment> \<open>line 231; 113 is \<^verbatim>\<open>ord('q')\<close>\<close>
  "stop_requested c \<longleftrightarrow> key c AND 255 = 113 \<or> stop_recording c \<or> live_visible c < 1"

definition sleep_arg :: "f64 \<Rightarrow> cycle \<Rightarrow> f64 option" where
  \<comment> \<open>lines 235 to 238: the argument of \<^verbatim>\<open>time.sleep\<close>, or \<open>None\<close> when it is not called\<close>
  "sleep_arg frame_time c =
     (let elapsed_time = f64_sub (t_end c) (t_start c);
          sleep_time = f64_sub frame_time elapsed_time
      in if sleep_time > 0 then Some sleep_time else None)"

definition draw_cursor ::
  "monitor \<Rightarrow> u8 array3 option \<Rightarrow> cycle \<Rightarrow> u8 array3 \<Rightarrow> line list
     \<Rightarrow> exn + u8 array3 \<times> line list" where
  \<comment> \<open>lines 213 to 223\<close>
  "draw_cursor mon cursor_img c frame_bgr out =
     (case cursor_img of
        None \<Rightarrow> Inr (frame_bgr, out)
      | Some img \<Rightarrow>
          let (cursor_x, cursor_y) = mouse c;
              frame_x = cursor_x - mon_left mon;
              frame_y = cursor_y - mon_top mon
          in case overlay_image_alpha \<lparr>screen = frame_bgr, cursor = img, stdout = out\<rparr>
                    frame_x frame_y of
               Inl e \<Rightarrow> Inl e
             | Inr st \<Rightarrow> Inr (screen st, stdout st))"

fun record_loop ::
  "f64 \<Rightarrow> monitor \<Rightarrow> u8 array3 option \<Rightarrow> cycle list \<Rightarrow> recording \<Rightarrow> recording \<times> status" where
  "record_loop frame_time mon cursor_img [] rec = (rec, Running)"
| "record_loop frame_time mon cursor_img (c # cs) rec =
     (let frame_bgr = cvtColor_BGRA2BGR (grab c)
      in case draw_cursor mon cursor_img c frame_bgr (printed rec) of
           Inl e \<Rightarrow> (rec, Raised e)
         | Inr (frame_bgr, out) \<Rightarrow>
             let rec = rec\<lparr>video := video rec @ [frame_bgr],
                           preview := preview rec @ [frame_bgr],
                           printed := out\<rparr>
             in if stop_requested c then (rec, Stopped)
                else record_loop frame_time mon cursor_img cs
                       (rec\<lparr>sleeps := sleeps rec @ [sleep_arg frame_time c]\<rparr>))"

definition duration :: "f64 option \<Rightarrow> f64" where
  \<comment> \<open>the time a cycle sleeps: nothing when \<^verbatim>\<open>time.sleep\<close> is not called\<close>
  "duration s = (case s of None \<Rightarrow> 0 | Some d \<Rightarrow> d)"

definition elapsed :: "cycle \<Rightarrow> f64" where
  "elapsed c = f64_sub (t_end c) (t_start c)"

section \<open>\<^verbatim>\<open>main\<close>\<close>

record outcome =
  exit_code :: "int option"
  codec :: "int option"
  frames :: "u8 array3 list"
  pauses :: "f64 option list"
  output_lines :: "line list"

definition exit_status :: "exn \<Rightarrow> int" where
  \<comment> \<open>the status of a process that an exception ends: \<^verbatim>\<open>sys.exit(n)\<close> gives \<open>n\<close>, a traceback 1\<close>
  "exit_status e = (case e of SystemExit n \<Rightarrow> n | _ \<Rightarrow> 1)"

definition empty_recording :: "line list \<Rightarrow> recording" where
  "empty_recording out = \<lparr>video = [], preview = [], sleeps = [], printed = out\<rparr>"

definition main :: "env \<Rightarrow> cli \<Rightarrow> cycle list \<Rightarrow> outcome" where
  \<comment> \<open>the preview window is created and resized between the writer and the loop; it has no
      part in the outcome\<close>
  "main ev c cycles =
     (let a = setup_arguments c;
          (loaded, out1) = load_cursor ev a
      in case loaded of
           Inl e \<Rightarrow> \<lparr>exit_code = Some (exit_status e), codec = None, frames = [], pauses = [],
                      output_lines = out1\<rparr>
         | Inr cursor_img \<Rightarrow>
             let (selected, out2) = setup_monitor ev a
             in case selected of
                  Inl e \<Rightarrow> \<lparr>exit_code = Some (exit_status e), codec = None, frames = [],
                             pauses = [], output_lines = out1 @ out2\<rparr>
                | Inr mon \<Rightarrow>
                    let fourcc = get_codec (VideoWriter_fourcc ev) (arg_output a);
                        out3 = out1 @ out2 @
                          [Recording_monitor (arg_monitor a) (mon_width mon) (mon_height mon)
                             (arg_output a) (arg_fps a),
                           Press_F5_to_stop]
                    in case py_float_div 1 (arg_fps a) of
                         Inl e \<Rightarrow> \<lparr>exit_code = Some (exit_status e), codec = Some fourcc,
                                    frames = [], pauses = [], output_lines = out3\<rparr>
                       | Inr frame_time \<Rightarrow>
                           let (rec, s) = record_loop frame_time mon cursor_img cycles
                                            (empty_recording out3);
                               closing = [Cleaning_up_and_saving_video,
                                          Video_saved_to (arg_output a)]
                           in case s of
                                Running \<Rightarrow>
                                  \<lparr>exit_code = None, codec = Some fourcc, frames = video rec,
                                   pauses = sleeps rec, output_lines = printed rec\<rparr>
                              | Stopped \<Rightarrow>
                                  \<lparr>exit_code = Some 0, codec = Some fourcc, frames = video rec,
                                   pauses = sleeps rec, output_lines = printed rec @ closing\<rparr>
                              | Raised e \<Rightarrow>
                                  if e = KeyboardInterrupt
                                  then \<lparr>exit_code = Some 0, codec = Some fourcc,
                                        frames = video rec, pauses = sleeps rec,
                                        output_lines = printed rec @
                                          [Recording_stopped_by_user] @ closing\<rparr>
                                  else \<lparr>exit_code = Some (exit_status e), codec = Some fourcc,
                                        frames = video rec, pauses = sleeps rec,
                                        output_lines = printed rec @ closing\<rparr>)"

section \<open>Facts about the binary64 rounding\<close>

lemma bitlen_powi_bounds:
  assumes "0 < p"
  shows "(2::rat) powi (bitlen p - 1) \<le> of_int p" and "of_int p < (2::rat) powi (bitlen p)"
proof -
  from bitlen_bounds [OF assms]
  have lo: "2 ^ nat (bitlen p - 1) \<le> p" and hi: "p < 2 ^ nat (bitlen p)" by simp_all
  have b1: "1 \<le> bitlen p" using assms by (simp add: bitlen_alt_def)
  have "(2::rat) powi (bitlen p - 1) = of_int (2 ^ nat (bitlen p - 1))"
    using b1 by (simp add: power_int_def)
  also have "\<dots> \<le> of_int p" using lo by (simp only: of_int_le_iff)
  finally show "(2::rat) powi (bitlen p - 1) \<le> of_int p" .
  have "(of_int p :: rat) < of_int (2 ^ nat (bitlen p))" using hi by (simp only: of_int_less_iff)
  also have "\<dots> = (2::rat) powi (bitlen p)" using b1 by (simp add: power_int_def)
  finally show "of_int p < (2::rat) powi (bitlen p)" .
qed

lemma ilog2_bounds:
  assumes "0 < x"
  shows "2 powi (ilog2 x) \<le> x \<and> x < 2 powi (ilog2 x + 1)"
proof -
  obtain p q where pq: "quotient_of x = (p, q)" by (cases "quotient_of x")
  have q0: "0 < q" using pq by (rule quotient_of_denom_pos)
  have x: "x = of_int p / of_int q" using pq by (rule quotient_of_div)
  have p0: "0 < p" using assms q0 unfolding x by (simp add: zero_less_divide_iff)
  define k where "k = bitlen p - bitlen q"
  have lo: "2 powi (k - 1) \<le> x"
  proof -
    have "(2::rat) powi (k - 1) = 2 powi (bitlen p - 1) / 2 powi (bitlen q)"
      unfolding k_def by (simp add: power_int_diff [symmetric] algebra_simps)
    also have "\<dots> \<le> of_int p / 2 powi (bitlen q)"
      using bitlen_powi_bounds(1) [OF p0] by (simp add: divide_right_mono)
    also have "\<dots> \<le> of_int p / of_int q"
      using bitlen_powi_bounds(2) [OF q0] p0 q0 by (simp add: frac_le)
    finally show ?thesis unfolding x .
  qed
  have hi: "x < 2 powi (k + 1)"
  proof -
    have "x \<le> of_int p / 2 powi (bitlen q - 1)"
      unfolding x using bitlen_powi_bounds(1) [OF q0] p0 q0 by (simp add: frac_le)
    also have "\<dots> < 2 powi (bitlen p) / 2 powi (bitlen q - 1)"
      using bitlen_powi_bounds(2) [OF p0] by (simp add: divide_strict_right_mono)
    also have "\<dots> = 2 powi (k + 1)"
      unfolding k_def by (simp add: power_int_diff [symmetric] algebra_simps)
    finally show ?thesis .
  qed
  show ?thesis
  proof (cases "2 powi k \<le> x")
    case True
    then have "ilog2 x = k" by (simp add: ilog2_def pq k_def)
    then show ?thesis using True hi by simp
  next
    case False
    then have "ilog2 x = k - 1" by (simp add: ilog2_def pq k_def)
    then show ?thesis using False lo by simp
  qed
qed

lemma round_half_even_of_int: "round_half_even (of_int n) = n"
  by (simp add: round_half_even_def)

lemma fl_0: "fl 0 = 0"
  by (simp add: fl_def)

lemma fl_of_int:
  assumes "0 \<le> n" and "n < 2 ^ 53"
  shows "fl (of_int n) = of_int n"
proof (cases "n = 0")
  case True
  then show ?thesis by (simp add: fl_def)
next
  case False
  with assms have n0: "0 < n" by simp
  define e where "e = ilog2 (of_int n)"
  have b: "2 powi e \<le> (of_int n :: rat)" "(of_int n :: rat) < 2 powi (e + 1)"
    using ilog2_bounds [of "of_int n"] n0 by (simp_all add: e_def)
  have "(1::rat) \<le> of_int n" using n0 by simp
  have e0: "0 \<le> e"
  proof (rule ccontr)
    assume "\<not> 0 \<le> e"
    then have "e + 1 \<le> 0" by simp
    then have "(2::rat) powi (e + 1) \<le> 2 powi 0" by (rule power_int_increasing) simp
    with b(2) \<open>(1::rat) \<le> of_int n\<close> show False by simp
  qed
  have "(of_int n :: rat) < of_int (2 ^ 53)" using assms(2) by (simp only: of_int_less_iff)
  then have lt53: "(2::rat) powi e < 2 powi 53" using b(1) by simp
  have e52: "e \<le> 52"
  proof (rule ccontr)
    assume "\<not> e \<le> 52"
    then have "53 \<le> e" by simp
    then have "(2::rat) powi 53 \<le> 2 powi e" by (rule power_int_increasing) simp
    with lt53 show False by simp
  qed
  define m where "m = n * 2 ^ nat (52 - e)"
  have q: "(2::rat) powi (e - 52) = 1 / 2 ^ nat (52 - e)"
    using e52 by (simp add: power_int_def field_simps power_inverse) 
  have "of_int n / (2::rat) powi (e - 52) = of_int m"
    by (simp add: q m_def)
  then have "fl (of_int n) = of_int m * 2 powi (e - 52)"
    using n0 by (simp add: fl_def e_def [symmetric] round_half_even_of_int Let_def)
  also have "\<dots> = of_int n" by (simp add: q m_def)
  finally show ?thesis .
qed

text \<open>
  The rounding keeps a number that is not negative so, and raises it by at most one part in
  \<open>2 ^ 53\<close>.
\<close>

lemma round_half_even_upper: "of_int (round_half_even t) \<le> t + 1 / 2"
proof -
  define n where "n = \<lfloor>t\<rfloor>"
  define d where "d = t - of_int n"
  have n: "of_int n \<le> t" "t < of_int n + 1" unfolding n_def by linarith+
  have r: "round_half_even t =
      (if d < 1 / 2 then n else if 1 / 2 < d then n + 1 else if even n then n else n + 1)"
    by (simp add: round_half_even_def Let_def n_def d_def)
  consider "d < 1 / 2" | "1 / 2 < d" | "d = 1 / 2" by linarith
  then show ?thesis
  proof cases
    case 1
    then show ?thesis using n by (simp add: r)
  next
    case 2
    then have "of_int (n + 1) \<le> t + 1 / 2" by (simp add: d_def)
    then show ?thesis using 2 by (simp add: r)
  next
    case 3
    then have "of_int (n + 1) \<le> t + 1 / 2" "of_int n \<le> t + 1 / 2" by (simp_all add: d_def)
    then show ?thesis using 3 by (simp add: r)
  qed
qed

lemma round_half_even_nonneg: "0 \<le> t \<Longrightarrow> 0 \<le> round_half_even t"
proof -
  assume "0 \<le> t"
  then have "0 \<le> \<lfloor>t\<rfloor>" by simp
  then show ?thesis by (simp add: round_half_even_def Let_def)
qed

lemma fl_nonneg: "0 \<le> x \<Longrightarrow> 0 \<le> fl x"
proof -
  assume x: "0 \<le> x"
  define q where "q = (2::rat) powi (ilog2 \<bar>x\<bar> - 52)"
  have q: "0 < q" by (simp add: q_def)
  then have "0 \<le> x / q" using x by simp
  then have "0 \<le> round_half_even (x / q)" by (rule round_half_even_nonneg)
  then have "0 \<le> (of_int (round_half_even (x / q)) :: rat) * q"
    using q by simp
  then show ?thesis by (simp add: fl_def q_def Let_def)
qed

lemma fl_upper:
  assumes "0 \<le> x"
  shows "fl x \<le> x * (1 + 1 / 2 ^ 53)"
proof (cases "x = 0")
  case True
  then show ?thesis by (simp add: fl_0)
next
  case False
  with assms have x: "0 < x" by simp
  define e where "e = ilog2 x"
  define q where "q = (2::rat) powi (e - 52)"
  have q: "0 < q" by (simp add: q_def)
  have "(2::rat) powi e \<le> x" using ilog2_bounds [OF x] by (simp add: e_def)
  moreover have "(2::rat) powi e = q * 2 ^ 52"
    by (simp add: q_def power_int_diff)
  ultimately have qx: "q * 2 ^ 52 \<le> x" by simp
  have "fl x = of_int (round_half_even (x / q)) * q"
    using x by (simp add: fl_def e_def q_def Let_def)
  also have "\<dots> \<le> (x / q + 1 / 2) * q"
    using round_half_even_upper [of "x / q"] q by (simp add: mult_right_mono)
  also have "\<dots> = x + q / 2" using q by (simp add: field_simps)
  also have "\<dots> \<le> x + x / 2 ^ 53" using qx by (simp add: field_simps)
  finally show ?thesis by (simp add: field_simps)
qed

section \<open>Facts about arrays\<close>

lemma rectI:
  assumes "length a = h"
    and "\<And>i. i < h \<Longrightarrow> length (a ! i) = w"
    and "\<And>i j. i < h \<Longrightarrow> j < w \<Longrightarrow> length (a ! i ! j) = c"
  shows "rect h w c a"
  using assms by (simp add: rect_def list_all_length)

lemma rect_length: "rect h w c a \<Longrightarrow> length a = h"
  by (simp add: rect_def)

lemma rect_row: "rect h w c a \<Longrightarrow> i < h \<Longrightarrow> length (a ! i) = w"
  by (simp add: rect_def list_all_length)

lemma rect_px: "rect h w c a \<Longrightarrow> i < h \<Longrightarrow> j < w \<Longrightarrow> length (a ! i ! j) = c"
  by (simp add: rect_def list_all_length)

lemma map_const_replicate: "(\<And>x. x \<in> set xs \<Longrightarrow> f x = v) \<Longrightarrow> map f xs = replicate (length xs) v"
  by (induction xs) simp_all

lemma rect_shape:
  assumes "rect h w c a"
  shows "map (map length) a = replicate h (replicate w c)"
proof -
  have "map (map length) a = replicate (length a) (replicate w c)"
  proof (rule map_const_replicate)
    fix row assume "row \<in> set a"
    with assms have len: "length row = w" and px: "\<And>p. p \<in> set row \<Longrightarrow> length p = c"
      by (auto simp: rect_def list_all_iff)
    have "map length row = replicate (length row) c"
      by (rule map_const_replicate) (rule px)
    then show "map length row = replicate w c" by (simp add: len)
  qed
  then show ?thesis using assms by (simp add: rect_def)
qed

lemma same_shape_rect: "rect h w c a \<Longrightarrow> rect h w c b \<Longrightarrow> same_shape a b"
  by (simp add: same_shape_def rect_shape)

lemma shape2_rect: "rect h w c a \<Longrightarrow> 0 < h \<Longrightarrow> shape2 a = (int h, int w)"
  by (cases a) (auto simp: shape2_def rect_def)

lemma shape2_empty: "rect 0 w c a \<Longrightarrow> shape2 a = (0, 0)"
  by (simp add: shape2_def rect_def)

lemma py_index_inner: "0 \<le> i \<Longrightarrow> i \<le> int n \<Longrightarrow> py_index i n = nat i"
  by (simp add: py_index_def min_def) linarith

lemma py_slice_inner:
  assumes "0 \<le> i" "i \<le> j" "j \<le> int (length xs)"
  shows "py_slice i j xs = take (nat j - nat i) (drop (nat i) xs)"
proof -
  have "py_index i (length xs) = nat i" "py_index j (length xs) = nat j"
    using assms by (simp_all add: py_index_inner)
  then show ?thesis by (simp add: py_slice_def Let_def)
qed

lemma py_slice_length:
  assumes "0 \<le> i" "i \<le> j" "j \<le> int (length xs)"
  shows "length (py_slice i j xs) = nat j - nat i"
proof -
  have "nat j \<le> length xs" using assms by linarith
  then show ?thesis using assms by (simp add: py_slice_inner)
qed

lemma py_slice_nth:
  assumes "0 \<le> i" "i \<le> j" "j \<le> int (length xs)" "k < nat j - nat i"
  shows "py_slice i j xs ! k = xs ! (nat i + k)"
  using assms by (simp add: py_slice_inner)

lemma slice2_rect:
  assumes a: "rect h w c a"
    and r: "0 \<le> r1" "r1 \<le> r2" "r2 \<le> int h"
    and cc: "0 \<le> c1" "c1 \<le> c2" "c2 \<le> int w"
  shows "rect (nat r2 - nat r1) (nat c2 - nat c1) c (slice2 r1 r2 c1 c2 a)"
    and "\<And>i j. i < nat r2 - nat r1 \<Longrightarrow> j < nat c2 - nat c1 \<Longrightarrow>
           slice2 r1 r2 c1 c2 a ! i ! j = a ! (nat r1 + i) ! (nat c1 + j)"
proof -
  have la: "length a = h" using a by (rule rect_length)
  have rl: "length (py_slice r1 r2 a) = nat r2 - nat r1"
    using r la by (simp add: py_slice_length)
  have rn: "py_slice r1 r2 a ! i = a ! (nat r1 + i)" if "i < nat r2 - nat r1" for i
    using r la that by (simp add: py_slice_nth)
  have inr: "nat r1 + i < h" if "i < nat r2 - nat r1" for i
    using r that by linarith
  have row: "slice2 r1 r2 c1 c2 a ! i = py_slice c1 c2 (a ! (nat r1 + i))"
    if "i < nat r2 - nat r1" for i
    using that rl rn by (simp add: slice2_def)
  have rowlen: "length (a ! (nat r1 + i)) = w" if "i < nat r2 - nat r1" for i
    using rect_row [OF a inr [OF that]] .
  show nth: "slice2 r1 r2 c1 c2 a ! i ! j = a ! (nat r1 + i) ! (nat c1 + j)"
    if "i < nat r2 - nat r1" "j < nat c2 - nat c1" for i j
    using that cc by (simp add: row py_slice_nth rowlen)
  have inc: "nat c1 + j < w" if "j < nat c2 - nat c1" for j
    using cc that by linarith
  show "rect (nat r2 - nat r1) (nat c2 - nat c1) c (slice2 r1 r2 c1 c2 a)"
  proof (rule rectI)
    show "length (slice2 r1 r2 c1 c2 a) = nat r2 - nat r1"
      by (simp add: slice2_def rl)
  next
    fix i assume "i < nat r2 - nat r1"
    then show "length (slice2 r1 r2 c1 c2 a ! i) = nat c2 - nat c1"
      using cc by (simp add: row py_slice_length rowlen)
  next
    fix i j assume "i < nat r2 - nat r1" "j < nat c2 - nat c1"
    then show "length (slice2 r1 r2 c1 c2 a ! i ! j) = c"
      using rect_px [OF a inr inc] by (simp add: nth)
  qed
qed

lemma map3_rect: "rect h w c a \<Longrightarrow> rect h w c (map3 f a)"
  by (simp add: rect_def map3_def list_all_length)

lemma map3_nth: "rect h w c a \<Longrightarrow> i < h \<Longrightarrow> j < w \<Longrightarrow> map3 f a ! i ! j = map f (a ! i ! j)"
  by (simp add: rect_def map3_def list_all_length)

lemma elementwise_rect:
  assumes a: "rect h w c a" and b: "rect h w c b"
  shows "\<exists>r. elementwise f a b = Inr r \<and> rect h w c r \<and>
           (\<forall>i<h. \<forall>j<w. r ! i ! j = map2 f (a ! i ! j) (b ! i ! j))"
proof -
  let ?r = "map2 (map2 (map2 f)) a b"
  have "elementwise f a b = Inr ?r"
    using same_shape_rect [OF a b] by (simp add: elementwise_def)
  moreover have "rect h w c ?r"
    using a b by (simp add: rect_def list_all_length)
  moreover have "\<forall>i<h. \<forall>j<w. ?r ! i ! j = map2 f (a ! i ! j) (b ! i ! j)"
    using a b by (simp add: rect_def list_all_length)
  ultimately show ?thesis by blast
qed


lemma blend_pixel_eq:
  assumes "length spx = 3" and "length cpx = 4"
  shows "map astype_u8
           (map2 f64_add
              (map2 f64_mul (map (f64_sub 1) (replicate 3 (f64_div (of_u8 (cpx ! 3)) 255)))
                 (map of_u8 spx))
              (map2 f64_mul (replicate 3 (f64_div (of_u8 (cpx ! 3)) 255))
                 (map of_u8 (take 3 cpx))))
         = blend_pixel spx cpx"
proof -
  obtain s0 s1 s2 where spx: "spx = [s0, s1, s2]"
    using assms(1) by (auto simp: numeral_3_eq_3 length_Suc_conv)
  obtain c0 c1 c2 c3 where cpx: "cpx = [c0, c1, c2, c3]"
    using assms(2) by (auto simp: numeral_eq_Suc length_Suc_conv)
  show ?thesis
    by (simp add: spx cpx blend_pixel_def alpha_composite_def numeral_3_eq_3 Let_def)
qed

lemma blend_roi_rect:
  assumes c: "rect h w 4 croi" and s: "rect h w 3 sroi"
  shows "\<exists>b. blend_roi croi sroi = Inr b \<and> rect h w 3 b \<and>
           (\<forall>i<h. \<forall>j<w. b ! i ! j = blend_pixel (sroi ! i ! j) (croi ! i ! j))"
proof -
  define am where
    "am = dstack_copies 3 (map (map (\<lambda>a. f64_div (of_u8 a) 255)) (map (map (\<lambda>p. p ! 3)) croi))"
  have idx: "last_axis_index 3 croi = Inr (map (map (\<lambda>p. p ! 3)) croi)"
    using c by (simp add: last_axis_index_def rect_def list_all_length)
  have am_rect: "rect h w 3 am"
    using c by (simp add: am_def dstack_copies_def rect_def list_all_length)
  have am_nth: "am ! i ! j = replicate 3 (f64_div (of_u8 (croi ! i ! j ! 3)) 255)"
    if "i < h" "j < w" for i j
    using c that by (simp add: am_def dstack_copies_def rect_def list_all_length)
  have rgb_rect: "rect h w 3 (last_axis_upto 3 croi)"
    using c by (simp add: last_axis_upto_def rect_def list_all_length)
  have rgb_nth: "last_axis_upto 3 croi ! i ! j = take 3 (croi ! i ! j)"
    if "i < h" "j < w" for i j
    using c that by (simp add: last_axis_upto_def rect_def list_all_length)
  obtain bg where bg: "elementwise f64_mul (map3 (f64_sub 1) am) (map3 of_u8 sroi) = Inr bg"
    "rect h w 3 bg"
    "\<forall>i<h. \<forall>j<w. bg ! i ! j = map2 f64_mul (map3 (f64_sub 1) am ! i ! j) (map3 of_u8 sroi ! i ! j)"
    using elementwise_rect [OF map3_rect [OF am_rect] map3_rect [OF s]] by blast
  obtain fg where fg: "elementwise f64_mul am (map3 of_u8 (last_axis_upto 3 croi)) = Inr fg"
    "rect h w 3 fg"
    "\<forall>i<h. \<forall>j<w. fg ! i ! j = map2 f64_mul (am ! i ! j) (map3 of_u8 (last_axis_upto 3 croi) ! i ! j)"
    using elementwise_rect [OF am_rect map3_rect [OF rgb_rect]] by blast
  obtain bl where bl: "elementwise f64_add bg fg = Inr bl"
    "rect h w 3 bl"
    "\<forall>i<h. \<forall>j<w. bl ! i ! j = map2 f64_add (bg ! i ! j) (fg ! i ! j)"
    using elementwise_rect [OF bg(2) fg(2)] by blast
  have res: "blend_roi croi sroi = Inr (map3 astype_u8 bl)"
    by (simp only: blend_roi_def Let_def idx sum.case am_def [symmetric] bg(1) fg(1) bl(1))
  have px: "map3 astype_u8 bl ! i ! j = blend_pixel (sroi ! i ! j) (croi ! i ! j)"
    if ij: "i < h" "j < w" for i j
  proof -
    have "map3 astype_u8 bl ! i ! j = map astype_u8 (bl ! i ! j)"
      using map3_nth [OF bl(2) ij] .
    also have "bl ! i ! j = map2 f64_add (bg ! i ! j) (fg ! i ! j)"
      using bl(3) ij by simp
    also have "bg ! i ! j =
        map2 f64_mul (map (f64_sub 1) (replicate 3 (f64_div (of_u8 (croi ! i ! j ! 3)) 255)))
          (map of_u8 (sroi ! i ! j))"
      using bg(3) ij by (simp only: map3_nth [OF am_rect ij] map3_nth [OF s ij] am_nth [OF ij])
    also have "fg ! i ! j =
        map2 f64_mul (replicate 3 (f64_div (of_u8 (croi ! i ! j ! 3)) 255))
          (map of_u8 (take 3 (croi ! i ! j)))"
      using fg(3) ij by (simp only: map3_nth [OF rgb_rect ij] rgb_nth [OF ij] am_nth [OF ij])
    finally show ?thesis
      using blend_pixel_eq [OF rect_px [OF s ij] rect_px [OF c ij]] by simp
  qed
  show ?thesis
    using res map3_rect [OF bl(2)] px by blast
qed

lemma set_slice_inner:
  assumes "0 \<le> i" "i \<le> j" "j \<le> int (length xs)"
  shows "set_slice i j xs v = take (nat i) xs @ v @ drop (nat j) xs"
proof -
  have "py_index i (length xs) = nat i" "py_index j (length xs) = nat j"
    using assms by (simp_all add: py_index_inner)
  moreover have "max (nat i) (nat j) = nat j" using assms by simp
  ultimately show ?thesis by (simp add: set_slice_def Let_def)
qed

lemma set_slice_length:
  assumes "0 \<le> i" "i \<le> j" "j \<le> int (length xs)" "length v = nat j - nat i"
  shows "length (set_slice i j xs v) = length xs"
proof -
  have "nat i \<le> nat j" "nat j \<le> length xs" using assms by linarith+
  then show ?thesis using assms by (simp add: set_slice_inner)
qed

lemma set_slice_nth:
  assumes "0 \<le> i" "i \<le> j" "j \<le> int (length xs)" "length v = nat j - nat i" "k < length xs"
  shows "set_slice i j xs v ! k = (if nat i \<le> k \<and> k < nat j then v ! (k - nat i) else xs ! k)"
proof -
  have le: "nat i \<le> nat j" "nat j \<le> length xs" using assms by linarith+
  show ?thesis
  proof (cases "k < nat i")
    case True
    then show ?thesis using assms le by (simp add: set_slice_inner nth_append)
  next
    case False
    show ?thesis
    proof (cases "k < nat j")
      case True
      then have "k - nat i < nat j - nat i" using False by simp
      then show ?thesis using assms le True False by (simp add: set_slice_inner nth_append)
    next
      case False
      then have "\<not> k < nat i" "\<not> k - nat i < nat j - nat i" using le by simp_all
      moreover have "nat j + (k - nat i - (nat j - nat i)) = k" using False le by simp
      ultimately show ?thesis using assms le False
        by (simp add: set_slice_inner nth_append min_absorb2)
    qed
  qed
qed


lemma set_slice2_rect:
  assumes a: "rect h w c a"
    and v: "rect (nat r2 - nat r1) (nat c2 - nat c1) c v"
    and r: "0 \<le> r1" "r1 \<le> r2" "r2 \<le> int h"
    and cc: "0 \<le> c1" "c1 \<le> c2" "c2 \<le> int w"
  shows "\<exists>a'. set_slice2 r1 r2 c1 c2 a v = Inr a' \<and> rect h w c a' \<and>
           (\<forall>i<h. \<forall>j<w. a' ! i ! j =
              (if nat r1 \<le> i \<and> i < nat r2 \<and> nat c1 \<le> j \<and> j < nat c2
               then v ! (i - nat r1) ! (j - nat c1) else a ! i ! j))"
proof -
  define mid where "mid = map2 (set_slice c1 c2) (py_slice r1 r2 a) v"
  define a' where "a' = set_slice r1 r2 a mid"
  have la: "length a = h" using a by (rule rect_length)
  have lv: "length v = nat r2 - nat r1" using v by (rule rect_length)
  have sl: "length (py_slice r1 r2 a) = nat r2 - nat r1"
    using r la by (simp add: py_slice_length)
  have lmid: "length mid = nat r2 - nat r1"
    by (simp add: mid_def sl lv)
  have inr: "nat r1 + i < h" if "i < nat r2 - nat r1" for i
    using r that by linarith
  have mid_nth: "mid ! i = set_slice c1 c2 (a ! (nat r1 + i)) (v ! i)" if "i < nat r2 - nat r1" for i
    using that r la by (simp add: mid_def sl lv py_slice_nth)
  have res: "set_slice2 r1 r2 c1 c2 a v = Inr a'"
    using same_shape_rect [OF slice2_rect(1) [OF a r cc] v]
    by (simp add: set_slice2_def a'_def mid_def)
  have la': "length a' = h"
    using r la lmid by (simp add: a'_def set_slice_length)
  have row: "a' ! i = (if nat r1 \<le> i \<and> i < nat r2 then mid ! (i - nat r1) else a ! i)"
    if "i < h" for i
    using r la lmid that by (simp add: a'_def set_slice_nth)
  have rowlen: "length (a' ! i) = w" if i: "i < h" for i
  proof (cases "nat r1 \<le> i \<and> i < nat r2")
    case True
    then have k: "i - nat r1 < nat r2 - nat r1" by linarith
    have "length (v ! (i - nat r1)) = nat c2 - nat c1" using rect_row [OF v k] .
    moreover have "length (a ! i) = w" using rect_row [OF a i] .
    ultimately show ?thesis using True cc by (simp add: row [OF i] mid_nth [OF k] set_slice_length)
  next
    case False
    then show ?thesis using rect_row [OF a i] by (auto simp: row [OF i])
  qed
  have px: "a' ! i ! j =
      (if nat r1 \<le> i \<and> i < nat r2 \<and> nat c1 \<le> j \<and> j < nat c2
       then v ! (i - nat r1) ! (j - nat c1) else a ! i ! j)"
    if i: "i < h" and j: "j < w" for i j
  proof (cases "nat r1 \<le> i \<and> i < nat r2")
    case True
    then have k: "i - nat r1 < nat r2 - nat r1" by linarith
    have "length (v ! (i - nat r1)) = nat c2 - nat c1" using rect_row [OF v k] .
    moreover have "length (a ! i) = w" using rect_row [OF a i] .
    ultimately show ?thesis using True cc j
      by (simp add: row [OF i] mid_nth [OF k] set_slice_nth)
  next
    case False
    then show ?thesis by (auto simp: row [OF i])
  qed
  have "rect h w c a'"
  proof (rule rectI)
    show "length a' = h" by (rule la')
  next
    fix i assume "i < h" then show "length (a' ! i) = w" by (rule rowlen)
  next
    fix i j assume i: "i < h" and j: "j < w"
    show "length (a' ! i ! j) = c"
    proof (cases "nat r1 \<le> i \<and> i < nat r2 \<and> nat c1 \<le> j \<and> j < nat c2")
      case True
      then have "i - nat r1 < nat r2 - nat r1" "j - nat c1 < nat c2 - nat c1" by linarith+
      then show ?thesis using rect_px [OF v] True by (simp add: px [OF i j])
    next
      case False
      then show ?thesis using rect_px [OF a i j] by (auto simp: px [OF i j])
    qed
  qed
  then show ?thesis using res px by blast
qed

section \<open>What a call of \<^verbatim>\<open>overlay_image_alpha\<close> does\<close>

lemma overlay_off:
  assumes "shape2 (screen st) = (sh, sw)" and "shape2 (cursor st) = (ch, cw)"
    and "min sw (x + cw) - max 0 x \<le> 0 \<or> min sh (y + ch) - max 0 y \<le> 0"
  shows "overlay_image_alpha st x y = Inr st"
  using assms(3) unfolding overlay_image_alpha_def Let_def assms(1,2) prod.case by simp

lemma overlay_on:
  assumes "shape2 (screen st) = (sh, sw)" and "shape2 (cursor st) = (ch, cw)"
    and "\<not> (min sw (x + cw) - max 0 x \<le> 0 \<or> min sh (y + ch) - max 0 y \<le> 0)"
    and "blend_roi
           (slice2 (max 0 (- y)) (max 0 (- y) + (min sh (y + ch) - max 0 y))
              (max 0 (- x)) (max 0 (- x) + (min sw (x + cw) - max 0 x)) (cursor st))
           (slice2 (max 0 y) (min sh (y + ch)) (max 0 x) (min sw (x + cw)) (screen st)) = Inr b"
    and "set_slice2 (max 0 y) (min sh (y + ch)) (max 0 x) (min sw (x + cw)) (screen st) b = Inr a'"
  shows "overlay_image_alpha st x y = Inr (st\<lparr>screen := a'\<rparr>)"
  using assms(3,4,5) unfolding overlay_image_alpha_def Let_def assms(1,2) prod.case
  by simp

lemma overlay_rect:
  assumes s: "rect h w 3 (screen st)" and c: "rect ch cw 4 (cursor st)"
  shows "\<exists>scr'. overlay_image_alpha st x y = Inr (st\<lparr>screen := scr'\<rparr>) \<and> rect h w 3 scr' \<and>
           (\<forall>r<h. \<forall>k<w. scr' ! r ! k =
              (if covered x y ch cw r k
               then blend_pixel (screen st ! r ! k) (cursor st ! nat (int r - y) ! nat (int k - x))
               else screen st ! r ! k))"
proof -
  obtain sh sw where sh: "shape2 (screen st) = (sh, sw)" by (cases "shape2 (screen st)")
  obtain chh cww where chh: "shape2 (cursor st) = (chh, cww)" by (cases "shape2 (cursor st)")
  have sh_h: "sh = int h" using s sh by (simp add: shape2_def rect_def)
  have chh_h: "chh = int ch" using c chh by (simp add: shape2_def rect_def)
  have same: "st\<lparr>screen := screen st\<rparr> = st" by simp
  show ?thesis
  proof (cases "min sw (x + cww) - max 0 x \<le> 0 \<or> min sh (y + chh) - max 0 y \<le> 0")
    case True
    have res: "overlay_image_alpha st x y = Inr (st\<lparr>screen := screen st\<rparr>)"
      using overlay_off [OF sh chh True] by (simp only: same)
    have no: "\<not> covered x y ch cw r k" if "r < h" "k < w" for r k
    proof
      assume cov: "covered x y ch cw r k"
      then have "0 < h" "0 < ch" using that by (auto simp: covered_def)
      then have "sw = int w" "cww = int cw"
        using shape2_rect [OF s] shape2_rect [OF c] sh chh by simp_all
      then show False using True cov that sh_h chh_h by (auto simp: covered_def)
    qed
    show ?thesis using res s no by (intro exI [of _ "screen st"]) simp
  next
    case False
    then have pos: "0 < h" "0 < ch" using sh_h chh_h by auto
    have sw_w: "sw = int w" and cww_w: "cww = int cw"
      using shape2_rect [OF s pos(1)] shape2_rect [OF c pos(2)] sh chh by simp_all
    define x1 y1 x2 y2 where "x1 = max 0 x" and "y1 = max 0 y"
      and "x2 = min sw (x + cww)" and "y2 = min sh (y + chh)"
    define ix1 iy1 where "ix1 = max 0 (- x)" and "iy1 = max 0 (- y)"
    note defs = x1_def y1_def x2_def y2_def ix1_def iy1_def
    have box: "0 \<le> y1" "y1 \<le> y2" "y2 \<le> int h" "0 \<le> x1" "x1 \<le> x2" "x2 \<le> int w"
      using False by (auto simp: defs sh_h sw_w)
    have img: "0 \<le> iy1" "iy1 \<le> iy1 + (y2 - y1)" "iy1 + (y2 - y1) \<le> int ch"
      "0 \<le> ix1" "ix1 \<le> ix1 + (x2 - x1)" "ix1 + (x2 - x1) \<le> int cw"
      using False by (auto simp: defs chh_h cww_w)
    have dims: "nat (iy1 + (y2 - y1)) - nat iy1 = nat y2 - nat y1"
      "nat (ix1 + (x2 - x1)) - nat ix1 = nat x2 - nat x1"
      using box img by linarith+
    have croi: "rect (nat y2 - nat y1) (nat x2 - nat x1) 4
        (slice2 iy1 (iy1 + (y2 - y1)) ix1 (ix1 + (x2 - x1)) (cursor st))"
      using slice2_rect(1) [OF c img] by (simp only: dims)
    have croi_nth: "slice2 iy1 (iy1 + (y2 - y1)) ix1 (ix1 + (x2 - x1)) (cursor st) ! i ! j
        = cursor st ! (nat iy1 + i) ! (nat ix1 + j)"
      if "i < nat y2 - nat y1" "j < nat x2 - nat x1" for i j
      using slice2_rect(2) [OF c img] that by (simp only: dims)
    have sroi: "rect (nat y2 - nat y1) (nat x2 - nat x1) 3 (slice2 y1 y2 x1 x2 (screen st))"
      using slice2_rect(1) [OF s box] .
    have sroi_nth: "slice2 y1 y2 x1 x2 (screen st) ! i ! j = screen st ! (nat y1 + i) ! (nat x1 + j)"
      if "i < nat y2 - nat y1" "j < nat x2 - nat x1" for i j
      using slice2_rect(2) [OF s box] that .
    obtain b where b: "blend_roi (slice2 iy1 (iy1 + (y2 - y1)) ix1 (ix1 + (x2 - x1)) (cursor st))
          (slice2 y1 y2 x1 x2 (screen st)) = Inr b"
      "rect (nat y2 - nat y1) (nat x2 - nat x1) 3 b"
      "\<forall>i<nat y2 - nat y1. \<forall>j<nat x2 - nat x1. b ! i ! j =
         blend_pixel (slice2 y1 y2 x1 x2 (screen st) ! i ! j)
           (slice2 iy1 (iy1 + (y2 - y1)) ix1 (ix1 + (x2 - x1)) (cursor st) ! i ! j)"
      using blend_roi_rect [OF croi sroi] by blast
    obtain a' where a': "set_slice2 y1 y2 x1 x2 (screen st) b = Inr a'"
      "rect h w 3 a'"
      "\<forall>i<h. \<forall>j<w. a' ! i ! j =
         (if nat y1 \<le> i \<and> i < nat y2 \<and> nat x1 \<le> j \<and> j < nat x2
          then b ! (i - nat y1) ! (j - nat x1) else screen st ! i ! j)"
      using set_slice2_rect [OF s b(2) box] by blast
    have res: "overlay_image_alpha st x y = Inr (st\<lparr>screen := a'\<rparr>)"
      using overlay_on [OF sh chh False] b(1) a'(1) by (simp only: defs)
    have px: "a' ! r ! k =
        (if covered x y ch cw r k
         then blend_pixel (screen st ! r ! k) (cursor st ! nat (int r - y) ! nat (int k - x))
         else screen st ! r ! k)"
      if rk: "r < h" "k < w" for r k
    proof (cases "covered x y ch cw r k")
      case True
      then have inb: "nat y1 \<le> r \<and> r < nat y2 \<and> nat x1 \<le> k \<and> k < nat x2"
        using rk by (auto simp: covered_def defs sh_h sw_w chh_h cww_w)
      then have ij: "r - nat y1 < nat y2 - nat y1" "k - nat x1 < nat x2 - nat x1" by linarith+
      have orig: "nat y1 + (r - nat y1) = r" "nat x1 + (k - nat x1) = k" using inb by simp_all
      have src: "nat iy1 + (r - nat y1) = nat (int r - y)" "nat ix1 + (k - nat x1) = nat (int k - x)"
        using inb by (auto simp: defs)
      have "a' ! r ! k = b ! (r - nat y1) ! (k - nat x1)" using a'(3) rk inb by simp
      also have "\<dots> = blend_pixel (screen st ! r ! k) (cursor st ! nat (int r - y) ! nat (int k - x))"
        using b(3) ij by (simp add: sroi_nth [OF ij] croi_nth [OF ij] orig src)
      finally show ?thesis using True by simp
    next
      case False
      then have "\<not> (nat y1 \<le> r \<and> r < nat y2 \<and> nat x1 \<le> k \<and> k < nat x2)"
        using rk by (auto simp: covered_def defs sh_h sw_w chh_h cww_w)
      then show ?thesis using a'(3) rk False by auto
    qed
    show ?thesis using res a'(2) px by blast
  qed
qed


text \<open>
  Whatever the \<^verbatim>\<open>try\<close> block raises is an \<^verbatim>\<open>Exception\<close>, which the handler takes, so the
  call returns.
\<close>

lemma blend_roi_exn: "blend_roi a b = Inl e \<Longrightarrow> is_Exception e"
  by (auto simp: blend_roi_def last_axis_index_def elementwise_def Let_def
      split: sum.splits if_splits)

lemma set_slice2_exn: "set_slice2 r1 r2 c1 c2 a v = Inl e \<Longrightarrow> is_Exception e"
  by (auto simp: set_slice2_def split: if_splits)

lemma overlay_returns: "\<exists>st'. overlay_image_alpha st x y = Inr st'"
proof -
  obtain sh sw where sh: "shape2 (screen st) = (sh, sw)" by (cases "shape2 (screen st)")
  obtain ch cw where ch: "shape2 (cursor st) = (ch, cw)" by (cases "shape2 (cursor st)")
  show ?thesis
    unfolding overlay_image_alpha_def Let_def sh ch prod.case
    by (auto split: sum.splits dest: blend_roi_exn set_slice2_exn)
qed

section \<open>Facts about the blend of one pixel\<close>

text \<open>
  An eight-bit value is a binary64 number, so promoting it loses nothing and the rounding
  leaves it alone. With alpha 0 the mask is exactly 0.0 and with alpha 255 exactly 1.0, and
  the sums and products with 0.0 and 1.0 are exact. Between the two the rounding shows: on
  a frame channel of 100 under a sprite channel of 100 with alpha 5 the sum is just under
  100 and the truncation gives 99.
\<close>

lemma of_u8_uint: "of_u8 w = of_int (uint w)"
  by (simp add: of_u8_def)

lemma fl_of_u8: "fl (of_u8 w) = of_u8 w"
proof -
  have "uint w < 2 ^ 8" using uint_bounded [of w] by simp
  then have "uint w < 2 ^ 53" by simp
  then have "fl (of_int (uint w)) = of_int (uint w)"
    by (intro fl_of_int) simp_all
  then show ?thesis by (simp only: of_u8_uint)
qed

lemma fl_1: "fl 1 = 1"
  using fl_of_int [of 1] by simp

lemma astype_of_u8: "astype_u8 (of_u8 w) = w"
proof -
  have "astype_u8 (of_int (uint w)) = word_of_int \<lfloor>(of_int (uint w) :: rat)\<rfloor>"
    unfolding astype_u8_def by (simp only: of_int_0_le_iff uint_ge_0 if_True)
  also have "\<dots> = word_of_int (uint w)" by (simp only: floor_of_int)
  also have "\<dots> = w" by simp
  finally show ?thesis by (simp only: of_u8_uint)
qed

text \<open>
  The blended value lies in \<open>[0, 256)\<close>, so the conversion to eight bits is the plain
  truncation and never wraps.
\<close>

lemma of_u8_range: "0 \<le> of_u8 w" "of_u8 w \<le> 255"
proof -
  have "uint w < 2 ^ 8" using uint_bounded [of w] by simp
  then have "uint w \<le> 255" by simp
  then have "(of_int (uint w) :: rat) \<le> of_int 255" by (simp only: of_int_le_iff)
  then show "of_u8 w \<le> 255" by (simp only: of_u8_uint of_int_numeral)
  have "(0::rat) \<le> of_int (uint w)" by (simp only: of_int_0_le_iff uint_ge_0)
  then show "0 \<le> of_u8 w" by (simp only: of_u8_uint)
qed

lemma of_u8_not_255:
  assumes "w \<noteq> 255"
  shows "of_u8 w \<le> 254"
proof -
  have "uint w < 2 ^ 8" using uint_bounded [of w] by simp
  moreover have "uint w \<noteq> 255"
  proof
    assume "uint w = 255"
    then have "word_of_int (uint w) = (word_of_int 255 :: u8)" by simp
    then show False using assms by simp
  qed
  ultimately have "uint w \<le> 254" by simp
  then have "(of_int (uint w) :: rat) \<le> of_int 254" by (simp only: of_int_le_iff)
  then show ?thesis by (simp only: of_u8_uint of_int_numeral)
qed

lemma blend_value_in_range:
  "0 \<le> f64_add (f64_mul (f64_sub 1 (f64_div (of_u8 alpha) 255)) (of_u8 bg))
               (f64_mul (f64_div (of_u8 alpha) 255) (of_u8 fg)) \<and>
   f64_add (f64_mul (f64_sub 1 (f64_div (of_u8 alpha) 255)) (of_u8 bg))
           (f64_mul (f64_div (of_u8 alpha) 255) (of_u8 fg)) < 256"
proof (cases "alpha = 255")
  case True
  have "of_u8 (255 :: u8) = 255" by (simp add: of_u8_def)
  then show ?thesis
    using of_u8_range [of fg]
    by (simp add: True f64_div_def f64_sub_def f64_mul_def f64_add_def fl_0 fl_1 fl_of_u8)
next
  case False
  define U :: rat where "U = 1 + 1 / 2 ^ 53"
  have U: "1 \<le> U" "0 \<le> U" "254 / 255 * U < 1" "255 * U * U * U < 256"
    by (simp_all add: U_def)
  have up: "fl x \<le> x * U" if "0 \<le> x" for x
    using fl_upper [OF that] by (simp add: U_def)
  define a where "a = fl (of_u8 alpha / 255)"
  define b where "b = fl (1 - a)"
  define p where "p = fl (b * of_u8 bg)"
  define q where "q = fl (a * of_u8 fg)"
  note rng = of_u8_range
  have a0: "0 \<le> a" unfolding a_def using rng(1) [of alpha] by (intro fl_nonneg) simp
  have "a \<le> of_u8 alpha / 255 * U" unfolding a_def using rng(1) [of alpha] by (intro up) simp
  also have "\<dots> \<le> 254 / 255 * U"
    using of_u8_not_255 [OF False] U(2) by (intro mult_right_mono) simp_all
  finally have a1: "a < 1" using U(3) by simp
  have b0: "0 \<le> b" unfolding b_def using a1 by (intro fl_nonneg) simp
  have b1: "b \<le> (1 - a) * U" unfolding b_def using a1 by (intro up) simp
  have p0: "0 \<le> p" unfolding p_def using b0 rng(1) [of bg] by (intro fl_nonneg) simp
  have "p \<le> b * of_u8 bg * U" unfolding p_def using b0 rng(1) [of bg] by (intro up) simp
  also have "\<dots> \<le> ((1 - a) * U) * 255 * U"
    using b1 b0 rng [of bg] a1 U(2) by (intro mult_right_mono mult_mono) simp_all
  finally have p1: "p \<le> 255 * U * U * (1 - a)" by (simp add: mult_ac)
  have q0: "0 \<le> q" unfolding q_def using a0 rng(1) [of fg] by (intro fl_nonneg) simp
  have "q \<le> a * of_u8 fg * U" unfolding q_def using a0 rng(1) [of fg] by (intro up) simp
  also have "\<dots> \<le> a * 255 * U"
    using a0 rng [of fg] U(2) by (intro mult_right_mono mult_left_mono) simp_all
  also have "\<dots> \<le> (a * 255 * U) * U"
  proof -
    have "0 \<le> a * 255 * U" using a0 U(2) by simp
    then have "(a * 255 * U) * 1 \<le> (a * 255 * U) * U" using U(1) by (rule mult_left_mono [rotated])
    then show ?thesis by simp
  qed
  finally have q1: "q \<le> 255 * U * U * a" by (simp add: mult_ac)
  have "p + q \<le> 255 * U * U * (1 - a) + 255 * U * U * a" using p1 q1 by (rule add_mono)
  also have "\<dots> = 255 * U * U" by (simp add: algebra_simps)
  finally have pq: "p + q \<le> 255 * U * U" .
  have v0: "0 \<le> fl (p + q)" using p0 q0 by (intro fl_nonneg) simp
  have "fl (p + q) \<le> (p + q) * U" using p0 q0 by (intro up) simp
  also have "\<dots> \<le> 255 * U * U * U" using pq U(2) by (intro mult_right_mono)
  also have "\<dots> < 256" by (rule U(4))
  finally have v1: "fl (p + q) < 256" .
  show ?thesis
    using v0 v1
    by (simp add: f64_div_def f64_sub_def f64_mul_def f64_add_def a_def b_def p_def q_def)
qed

lemma alpha_composite_truncates:
  "uint (alpha_composite alpha bg fg) =
     \<lfloor>f64_add (f64_mul (f64_sub 1 (f64_div (of_u8 alpha) 255)) (of_u8 bg))
              (f64_mul (f64_div (of_u8 alpha) 255) (of_u8 fg))\<rfloor>"
proof -
  let ?v = "f64_add (f64_mul (f64_sub 1 (f64_div (of_u8 alpha) 255)) (of_u8 bg))
              (f64_mul (f64_div (of_u8 alpha) 255) (of_u8 fg))"
  have r: "0 \<le> ?v" "?v < 256" using blend_value_in_range [of alpha bg fg] by simp_all
  then have "0 \<le> \<lfloor>?v\<rfloor>" "\<lfloor>?v\<rfloor> < 256" by (simp_all add: floor_less_iff)
  then have "uint (word_of_int \<lfloor>?v\<rfloor> :: u8) = \<lfloor>?v\<rfloor>"
    by (simp add: uint_word_of_int take_bit_int_eq_self)
  then show ?thesis using r(1) by (simp add: alpha_composite_def astype_u8_def Let_def)
qed

lemma alpha_composite_transparent: "alpha_composite 0 bg fg = bg"
  by (simp add: alpha_composite_def f64_div_def f64_sub_def f64_mul_def f64_add_def
      fl_0 fl_1 fl_of_u8 astype_of_u8 of_u8_def [of 0])

lemma alpha_composite_opaque: "alpha_composite 255 bg fg = fg"
  by (simp add: alpha_composite_def f64_div_def f64_sub_def f64_mul_def f64_add_def
      fl_0 fl_1 fl_of_u8 astype_of_u8 of_u8_def [of 255])

lemma blend_pixel_transparent:
  assumes "length bg = 3" and "length fg = 4" and "fg ! 3 = 0"
  shows "blend_pixel bg fg = bg"
proof -
  obtain s0 s1 s2 where bg: "bg = [s0, s1, s2]"
    using assms(1) by (auto simp: numeral_3_eq_3 length_Suc_conv)
  obtain c0 c1 c2 c3 where fg: "fg = [c0, c1, c2, c3]"
    using assms(2) by (auto simp: numeral_eq_Suc length_Suc_conv)
  show ?thesis
    using assms(3) by (simp add: bg fg blend_pixel_def alpha_composite_transparent)
qed

lemma blend_pixel_opaque:
  assumes "length bg = 3" and "length fg = 4" and "fg ! 3 = 255"
  shows "blend_pixel bg fg = take 3 fg"
proof -
  obtain s0 s1 s2 where bg: "bg = [s0, s1, s2]"
    using assms(1) by (auto simp: numeral_3_eq_3 length_Suc_conv)
  obtain c0 c1 c2 c3 where fg: "fg = [c0, c1, c2, c3]"
    using assms(2) by (auto simp: numeral_eq_Suc length_Suc_conv)
  show ?thesis
    using assms(3) by (simp add: bg fg blend_pixel_def alpha_composite_opaque)
qed

lemma blend_pixel_nth:
  assumes "length bg = 3" and "length fg = 4" and "c < 3"
  shows "blend_pixel bg fg ! c = alpha_composite (fg ! 3) (bg ! c) (fg ! c)"
  using assms by (simp add: blend_pixel_def)

lemma covered_index:
  assumes "covered x y ch cw r k"
  shows "nat (int r - y) < ch" and "nat (int k - x) < cw"
  using assms by (auto simp: covered_def)

lemma rect_eqI:
  assumes a: "rect h w c a" and b: "rect h w c b"
    and px: "\<And>i j. i < h \<Longrightarrow> j < w \<Longrightarrow> a ! i ! j = b ! i ! j"
  shows "a = b"
proof (rule nth_equalityI)
  show "length a = length b" using a b by (simp add: rect_length)
next
  fix i assume "i < length a"
  then have i: "i < h" using a by (simp add: rect_length)
  show "a ! i = b ! i"
  proof (rule nth_equalityI)
    show "length (a ! i) = length (b ! i)" using rect_row [OF a i] rect_row [OF b i] by simp
  next
    fix j assume "j < length (a ! i)"
    then have "j < w" using rect_row [OF a i] by simp
    then show "a ! i ! j = b ! i ! j" using px i by simp
  qed
qed

lemma rect_replicate: "length p = c \<Longrightarrow> rect h w c (replicate h (replicate w p))"
  by (simp add: rect_def list_all_length)

lemma alpha_composite_128_10_0: "alpha_composite 128 10 0 = 4" by code_simp
lemma alpha_composite_128_20_0: "alpha_composite 128 20 0 = 9" by code_simp
lemma alpha_composite_128_30_255: "alpha_composite 128 30 255 = 142" by code_simp
lemma alpha_composite_rounding_example: "alpha_composite 5 100 100 = 99" by code_simp

section \<open>The claims about the compositor\<close>

text \<open>
  Claim C1. For every frame, every sprite and every position \<open>(x, y)\<close> at which the sprite
  rectangle lies inside the frame, the call sets every channel of every covered pixel to
  \<open>(1 - a) * frame_pixel + a * sprite_color\<close> with \<open>a = alpha / 255\<close>, computed in binary64 and
  truncated to eight bits, where the sprite pixel is the one at the same offset from the
  sprite's corner; every pixel outside the rectangle keeps its value.
\<close>

theorem blend_inside_is_alpha_composite:
  assumes "rect h w 3 (screen st)" and "rect ch cw 4 (cursor st)"
    and "0 \<le> x" and "x + int cw \<le> int w" and "0 \<le> y" and "y + int ch \<le> int h"
  shows "\<exists>scr'. overlay_image_alpha st x y = Inr (st\<lparr>screen := scr'\<rparr>) \<and> rect h w 3 scr' \<and>
           (\<forall>r<h. \<forall>k<w.
              if y \<le> int r \<and> int r < y + int ch \<and> x \<le> int k \<and> int k < x + int cw
              then \<forall>c<3. scr' ! r ! k ! c =
                     alpha_composite (cursor st ! nat (int r - y) ! nat (int k - x) ! 3)
                       (screen st ! r ! k ! c)
                       (cursor st ! nat (int r - y) ! nat (int k - x) ! c)
              else scr' ! r ! k = screen st ! r ! k)"
proof -
  obtain scr' where res: "overlay_image_alpha st x y = Inr (st\<lparr>screen := scr'\<rparr>)"
    and r: "rect h w 3 scr'"
    and px: "\<forall>r<h. \<forall>k<w. scr' ! r ! k =
              (if covered x y ch cw r k
               then blend_pixel (screen st ! r ! k) (cursor st ! nat (int r - y) ! nat (int k - x))
               else screen st ! r ! k)"
    using overlay_rect [OF assms(1,2)] by blast
  have "if y \<le> int i \<and> int i < y + int ch \<and> x \<le> int j \<and> int j < x + int cw
        then \<forall>c<3. scr' ! i ! j ! c =
               alpha_composite (cursor st ! nat (int i - y) ! nat (int j - x) ! 3)
                 (screen st ! i ! j ! c)
                 (cursor st ! nat (int i - y) ! nat (int j - x) ! c)
        else scr' ! i ! j = screen st ! i ! j" if ij: "i < h" "j < w" for i j
  proof (cases "covered x y ch cw i j")
    case True
    note idx = covered_index [OF True]
    have cond: "y \<le> int i \<and> int i < y + int ch \<and> x \<le> int j \<and> int j < x + int cw"
      using True by (simp add: covered_def)
    have eq: "scr' ! i ! j =
        blend_pixel (screen st ! i ! j) (cursor st ! nat (int i - y) ! nat (int j - x))"
      using px ij True by simp
    have "\<forall>c<3. scr' ! i ! j ! c =
            alpha_composite (cursor st ! nat (int i - y) ! nat (int j - x) ! 3)
              (screen st ! i ! j ! c)
              (cursor st ! nat (int i - y) ! nat (int j - x) ! c)"
      using blend_pixel_nth [OF rect_px [OF assms(1) ij] rect_px [OF assms(2) idx]]
      by (simp add: eq)
    then show ?thesis using cond by simp
  next
    case False
    then have ncond: "\<not> (y \<le> int i \<and> int i < y + int ch \<and> x \<le> int j \<and> int j < x + int cw)"
      by (simp add: covered_def)
    have "scr' ! i ! j = screen st ! i ! j" using px ij False by simp
    then show ?thesis using ncond by (simp only: if_False)
  qed
  then show ?thesis using res r by blast
qed

theorem blend_inside_is_alpha_composite_witness:
  "rect 3 4 3 (screen \<lparr>screen = replicate 3 (replicate 4 [10, 20, 30]),
                        cursor = replicate 2 (replicate 2 [0, 0, 255, 128]), stdout = []\<rparr>) \<and>
   rect 2 2 4 (cursor \<lparr>screen = replicate 3 (replicate 4 [10, 20, 30]),
                        cursor = replicate 2 (replicate 2 [0, 0, 255, 128]), stdout = []\<rparr>) \<and>
   (0::int) \<le> 1 \<and> (1::int) + int 2 \<le> int 4 \<and> (1::int) + int 2 \<le> int 3 \<and>
   (\<exists>scr'. overlay_image_alpha
             \<lparr>screen = replicate 3 (replicate 4 [10, 20, 30]),
              cursor = replicate 2 (replicate 2 [0, 0, 255, 128]), stdout = []\<rparr> 1 1
           = Inr \<lparr>screen = scr', cursor = replicate 2 (replicate 2 [0, 0, 255, 128]),
                  stdout = []\<rparr> \<and>
          scr' ! 1 ! 1 ! 0 = 4 \<and> scr' ! 1 ! 1 ! 1 = 9 \<and> scr' ! 1 ! 1 ! 2 = 142 \<and>
          scr' ! 0 ! 0 = [10, 20, 30] \<and> scr' ! 2 ! 2 ! 2 = 142 \<and> scr' ! 1 ! 0 = [10, 20, 30])"
proof -
  let ?st = "\<lparr>screen = replicate 3 (replicate 4 [10, 20, 30 :: u8]),
              cursor = replicate 2 (replicate 2 [0, 0, 255, 128 :: u8]), stdout = []\<rparr>"
  have f: "rect 3 4 3 (screen ?st)" by (simp add: rect_replicate)
  have s: "rect 2 2 4 (cursor ?st)" by (simp add: rect_replicate)
  obtain scr' where res: "overlay_image_alpha ?st 1 1 = Inr (?st\<lparr>screen := scr'\<rparr>)"
    and px: "\<forall>r<3. \<forall>k<4.
              if 1 \<le> int r \<and> int r < 1 + int 2 \<and> 1 \<le> int k \<and> int k < 1 + int 2
              then \<forall>c<3. scr' ! r ! k ! c =
                     alpha_composite (cursor ?st ! nat (int r - 1) ! nat (int k - 1) ! 3)
                       (screen ?st ! r ! k ! c)
                       (cursor ?st ! nat (int r - 1) ! nat (int k - 1) ! c)
              else scr' ! r ! k = screen ?st ! r ! k"
    using blend_inside_is_alpha_composite [OF f s, of 1 1] by auto
  have a: "\<forall>c<3. scr' ! 1 ! 1 ! c = alpha_composite 128 ([10, 20, 30] ! c) ([0, 0, 255, 128] ! c)"
    using px [rule_format, of 1 1] by simp
  have b: "\<forall>c<3. scr' ! 2 ! 2 ! c = alpha_composite 128 ([10, 20, 30] ! c) ([0, 0, 255, 128] ! c)"
    using px [rule_format, of 2 2] by simp
  have c: "scr' ! 0 ! 0 = [10, 20, 30]" "scr' ! 1 ! 0 = [10, 20, 30]"
    using px [rule_format, of 0 0] px [rule_format, of 1 0] by simp_all
  show ?thesis
    using f s res a [rule_format, of 0] a [rule_format, of 1] a [rule_format, of 2]
      b [rule_format, of 2] c
    by (simp add: alpha_composite_128_10_0 alpha_composite_128_20_0 alpha_composite_128_30_255)
qed

text \<open>
  Claim C2. For every frame, every sprite and every integer position \<open>(x, y)\<close> the call
  returns without raising. When the clipped rectangle has no area, and so in particular when
  the position is off the frame on any side (\<open>x \<le> - sprite_width\<close>, \<open>x \<ge> frame_width\<close>,
  \<open>y \<le> - sprite_height\<close> or \<open>y \<ge> frame_height\<close>), the call changes nothing: the frame is
  the frame it was given.
\<close>

theorem overlay_never_raises_noop_off_frame:
  assumes "shape2 (screen st) = (frame_height, frame_width)"
    and "shape2 (cursor st) = (sprite_height, sprite_width)"
  shows "(\<exists>st'. overlay_image_alpha st x y = Inr st') \<and>
         (min frame_width (x + sprite_width) - max 0 x \<le> 0 \<or>
          min frame_height (y + sprite_height) - max 0 y \<le> 0
            \<longrightarrow> overlay_image_alpha st x y = Inr st) \<and>
         (x \<le> - sprite_width \<or> frame_width \<le> x \<or> y \<le> - sprite_height \<or> frame_height \<le> y
            \<longrightarrow> overlay_image_alpha st x y = Inr st)"
proof (intro conjI impI)
  show "\<exists>st'. overlay_image_alpha st x y = Inr st'"
    using overlay_returns [of st x y] by blast
next
  assume "min frame_width (x + sprite_width) - max 0 x \<le> 0 \<or>
          min frame_height (y + sprite_height) - max 0 y \<le> 0"
  then show "overlay_image_alpha st x y = Inr st"
    by (rule overlay_off [OF assms])
next
  assume off: "x \<le> - sprite_width \<or> frame_width \<le> x \<or> y \<le> - sprite_height \<or> frame_height \<le> y"
  have "0 \<le> frame_width" "0 \<le> frame_height" "0 \<le> sprite_width" "0 \<le> sprite_height"
    using assms by (auto simp: shape2_def split: list.splits)
  with off have "min frame_width (x + sprite_width) - max 0 x \<le> 0 \<or>
          min frame_height (y + sprite_height) - max 0 y \<le> 0"
    by auto
  then show "overlay_image_alpha st x y = Inr st"
    by (rule overlay_off [OF assms])
qed

theorem overlay_never_raises_noop_off_frame_witness:
  "shape2 (screen \<lparr>screen = [[[1, 2, 3], [4, 5, 6]]], cursor = [[[9, 9, 9, 255]]], stdout = []\<rparr>)
     = (1, 2) \<and>
   shape2 (cursor \<lparr>screen = [[[1, 2, 3], [4, 5, 6]]], cursor = [[[9, 9, 9, 255]]], stdout = []\<rparr>)
     = (1, 1) \<and>
   overlay_image_alpha
     \<lparr>screen = [[[1, 2, 3], [4, 5, 6]]], cursor = [[[9, 9, 9, 255]]], stdout = []\<rparr> 2 0
     = Inr \<lparr>screen = [[[1, 2, 3], [4, 5, 6]]], cursor = [[[9, 9, 9, 255]]], stdout = []\<rparr>"
  using overlay_never_raises_noop_off_frame
    [of "\<lparr>screen = [[[1, 2, 3], [4, 5, 6]]], cursor = [[[9, 9, 9, 255]]], stdout = []\<rparr>"
        1 2 1 1 2 0]
  by (simp add: shape2_def)

text \<open>
  Claim C3. For every position, also one that straddles an edge of the frame, the call
  blends exactly the pixels of the clipped rectangle
  \<open>[max 0 x, min frame_width (x + sprite_width))\<close> by
  \<open>[max 0 y, min frame_height (y + sprite_height))\<close>, each with the sprite pixel found at
  the offset \<open>max 0 (- x)\<close>, \<open>max 0 (- y)\<close> into the sprite, and leaves every other pixel
  alone. The witness is the 32 by 32 sprite at \<open>(- 20, 50)\<close>: columns 0 to 11 of rows 50
  to 81 receive the sprite's columns 20 to 31.
\<close>

theorem blend_touches_clipped_rectangle_only:
  assumes "rect h w 3 (screen st)" and "rect ch cw 4 (cursor st)"
  shows "\<exists>scr'. overlay_image_alpha st x y = Inr (st\<lparr>screen := scr'\<rparr>) \<and> rect h w 3 scr' \<and>
           (\<forall>r<h. \<forall>k<w. scr' ! r ! k =
              (if max 0 y \<le> int r \<and> int r < min (int h) (y + int ch) \<and>
                  max 0 x \<le> int k \<and> int k < min (int w) (x + int cw)
               then blend_pixel (screen st ! r ! k)
                      (cursor st ! nat (max 0 (- y) + (int r - max 0 y))
                                 ! nat (max 0 (- x) + (int k - max 0 x)))
               else screen st ! r ! k))"
proof -
  obtain scr' where res: "overlay_image_alpha st x y = Inr (st\<lparr>screen := scr'\<rparr>)"
    and r: "rect h w 3 scr'"
    and px: "\<forall>r<h. \<forall>k<w. scr' ! r ! k =
              (if covered x y ch cw r k
               then blend_pixel (screen st ! r ! k) (cursor st ! nat (int r - y) ! nat (int k - x))
               else screen st ! r ! k)"
    using overlay_rect [OF assms(1,2)] by blast
  have "scr' ! i ! j =
      (if max 0 y \<le> int i \<and> int i < min (int h) (y + int ch) \<and>
          max 0 x \<le> int j \<and> int j < min (int w) (x + int cw)
       then blend_pixel (screen st ! i ! j)
              (cursor st ! nat (max 0 (- y) + (int i - max 0 y))
                         ! nat (max 0 (- x) + (int j - max 0 x)))
       else screen st ! i ! j)" if ij: "i < h" "j < w" for i j
  proof -
    have box: "(max 0 y \<le> int i \<and> int i < min (int h) (y + int ch) \<and>
                max 0 x \<le> int j \<and> int j < min (int w) (x + int cw)) = covered x y ch cw i j"
      using ij by (auto simp: covered_def)
    have off: "max 0 (- y) + (int i - max 0 y) = int i - y"
      "max 0 (- x) + (int j - max 0 x) = int j - x"
      by simp_all
    show ?thesis using px ij by (simp only: box off)
  qed
  then show ?thesis using res r by blast
qed

theorem blend_touches_clipped_rectangle_only_witness:
  "rect 100 100 3 (screen \<lparr>screen = replicate 100 (replicate 100 [10, 20, 30]),
                            cursor = replicate 32 (map (\<lambda>j. [of_nat j, 0, 0, 255]) [0..<32]),
                            stdout = []\<rparr>) \<and>
   rect 32 32 4 (cursor \<lparr>screen = replicate 100 (replicate 100 [10, 20, 30]),
                          cursor = replicate 32 (map (\<lambda>j. [of_nat j, 0, 0, 255]) [0..<32]),
                          stdout = []\<rparr>) \<and>
   (\<exists>scr'. overlay_image_alpha
             \<lparr>screen = replicate 100 (replicate 100 [10, 20, 30]),
              cursor = replicate 32 (map (\<lambda>j. [of_nat j, 0, 0, 255]) [0..<32]),
              stdout = []\<rparr> (- 20) 50
           = Inr \<lparr>screen = scr',
                  cursor = replicate 32 (map (\<lambda>j. [of_nat j, 0, 0, 255]) [0..<32]),
                  stdout = []\<rparr> \<and>
          (\<forall>r<100. \<forall>k<100. scr' ! r ! k =
             (if 50 \<le> r \<and> r < 82 \<and> k < 12 then [of_nat (20 + k), 0, 0] else [10, 20, 30])))"
proof -
  let ?st = "\<lparr>screen = replicate 100 (replicate 100 [10, 20, 30 :: u8]),
              cursor = replicate 32 (map (\<lambda>j. [of_nat j, 0, 0, 255 :: u8]) [0..<32]),
              stdout = []\<rparr>"
  have f: "rect 100 100 3 (screen ?st)" by (simp add: rect_replicate)
  have s: "rect 32 32 4 (cursor ?st)" by (simp add: rect_def list_all_length)
  obtain scr' where res: "overlay_image_alpha ?st (- 20) 50 = Inr (?st\<lparr>screen := scr'\<rparr>)"
    and px: "\<forall>r<100. \<forall>k<100. scr' ! r ! k =
              (if max 0 50 \<le> int r \<and> int r < min (int 100) (50 + int 32) \<and>
                  max 0 (- 20) \<le> int k \<and> int k < min (int 100) (- 20 + int 32)
               then blend_pixel (screen ?st ! r ! k)
                      (cursor ?st ! nat (max 0 (- 50) + (int r - max 0 50))
                                  ! nat (max 0 (- (- 20)) + (int k - max 0 (- 20))))
               else screen ?st ! r ! k)"
    using blend_touches_clipped_rectangle_only [OF f s, of "- 20" 50] by blast
  have "scr' ! r ! k =
      (if 50 \<le> r \<and> r < 82 \<and> k < 12 then [of_nat (20 + k), 0, 0] else [10, 20, 30])"
    if rk: "r < 100" "k < 100" for r k
  proof -
    have pxrk: "scr' ! r ! k =
        (if max 0 50 \<le> int r \<and> int r < min (int 100) (50 + int 32) \<and>
            max 0 (- 20) \<le> int k \<and> int k < min (int 100) (- 20 + int 32)
         then blend_pixel (screen ?st ! r ! k)
                (cursor ?st ! nat (max 0 (- 50) + (int r - max 0 50))
                            ! nat (max 0 (- (- 20)) + (int k - max 0 (- 20))))
         else screen ?st ! r ! k)"
      using px rk by blast
    show ?thesis
    proof (cases "50 \<le> r \<and> r < 82 \<and> k < 12")
      case True
      then have row: "nat (max 0 (- 50) + (int r - max 0 50)) = r - 50" "r - 50 < 32"
        and col: "nat (max 0 (- (- 20)) + (int k - max 0 (- 20))) = 20 + k" "20 + k < 32"
        by auto
      have inside: "max 0 50 \<le> int r \<and> int r < min (int 100) (50 + int 32) \<and>
                    max 0 (- 20) \<le> int k \<and> int k < min (int 100) (- 20 + int 32)"
        using True by simp
      have "scr' ! r ! k = blend_pixel (screen ?st ! r ! k) (cursor ?st ! (r - 50) ! (20 + k))"
        unfolding pxrk row(1) col(1) by (rule if_P [OF inside])
      also have "cursor ?st ! (r - 50) ! (20 + k) = [of_nat (20 + k), 0, 0, 255]"
        using row(2) col(2) by simp
      also have "blend_pixel (screen ?st ! r ! k) [of_nat (20 + k), 0, 0, 255]
                 = [of_nat (20 + k), 0, 0]"
        using rk by (simp add: blend_pixel_opaque)
      finally show ?thesis using True by simp
    next
      case False
      then have outside: "\<not> (max 0 50 \<le> int r \<and> int r < min (int 100) (50 + int 32) \<and>
                    max 0 (- 20) \<le> int k \<and> int k < min (int 100) (- 20 + int 32))"
        by auto
      have "scr' ! r ! k = screen ?st ! r ! k"
        unfolding pxrk by (rule if_not_P [OF outside])
      then show ?thesis using rk False by simp
    qed
  qed
  then show ?thesis using f s res by auto
qed

text \<open>
  Claim C7. For every frame and every position, blending a sprite whose alpha is 0 at
  every pixel leaves the frame, and everything else, as it was.
\<close>

theorem transparent_sprite_is_identity:
  assumes "rect h w 3 (screen st)" and "rect ch cw 4 (cursor st)"
    and "list_all (list_all (\<lambda>p. p ! 3 = 0)) (cursor st)"
  shows "overlay_image_alpha st x y = Inr st"
proof -
  obtain scr' where res: "overlay_image_alpha st x y = Inr (st\<lparr>screen := scr'\<rparr>)"
    and r: "rect h w 3 scr'"
    and px: "\<forall>r<h. \<forall>k<w. scr' ! r ! k =
              (if covered x y ch cw r k
               then blend_pixel (screen st ! r ! k) (cursor st ! nat (int r - y) ! nat (int k - x))
               else screen st ! r ! k)"
    using overlay_rect [OF assms(1,2)] by blast
  have "scr' = screen st"
  proof (rule rect_eqI [OF r assms(1)])
    fix i j assume ij: "i < h" "j < w"
    show "scr' ! i ! j = screen st ! i ! j"
    proof (cases "covered x y ch cw i j")
      case True
      note idx = covered_index [OF True]
      have "cursor st ! nat (int i - y) ! nat (int j - x) ! 3 = 0"
        using assms(2,3) idx by (simp add: rect_def list_all_length)
      then have "blend_pixel (screen st ! i ! j) (cursor st ! nat (int i - y) ! nat (int j - x))
          = screen st ! i ! j"
        using rect_px [OF assms(1) ij] rect_px [OF assms(2) idx]
        by (intro blend_pixel_transparent)
      then show ?thesis using px ij True by simp
    next
      case False
      then show ?thesis using px ij by simp
    qed
  qed
  then show ?thesis using res by simp
qed

theorem transparent_sprite_is_identity_witness:
  "rect 2 2 3 (screen \<lparr>screen = [[[1, 2, 3], [4, 5, 6]], [[7, 8, 9], [10, 11, 12]]],
                        cursor = [[[200, 100, 50, 0]]], stdout = []\<rparr>) \<and>
   rect 1 1 4 (cursor \<lparr>screen = [[[1, 2, 3], [4, 5, 6]], [[7, 8, 9], [10, 11, 12]]],
                        cursor = [[[200, 100, 50, 0]]], stdout = []\<rparr>) \<and>
   list_all (list_all (\<lambda>p. p ! 3 = 0))
     (cursor \<lparr>screen = [[[1, 2, 3], [4, 5, 6]], [[7, 8, 9], [10, 11, 12]]],
              cursor = [[[200, 100, 50, 0]]], stdout = []\<rparr>) \<and>
   overlay_image_alpha
     \<lparr>screen = [[[1, 2, 3], [4, 5, 6]], [[7, 8, 9], [10, 11, 12]]],
      cursor = [[[200, 100, 50, 0]]], stdout = []\<rparr> 1 1
   = Inr \<lparr>screen = [[[1, 2, 3], [4, 5, 6]], [[7, 8, 9], [10, 11, 12]]],
          cursor = [[[200, 100, 50, 0]]], stdout = []\<rparr>"
  using transparent_sprite_is_identity
    [of 2 2 "\<lparr>screen = [[[1, 2, 3], [4, 5, 6]], [[7, 8, 9], [10, 11, 12]]],
              cursor = [[[200, 100, 50, 0]]], stdout = []\<rparr>" 1 1 1 1]
  by (simp add: rect_def)

text \<open>
  Claim C8. For every frame and every position, blending a sprite whose alpha is 255 at
  every pixel sets each covered pixel to the three colour channels of the sprite pixel
  over it, and changes no other pixel. The witness is the fully opaque red 32 by 32 sprite
  at \<open>(90, 90)\<close> on a 100 by 100 frame: rows and columns 90 to 99 become red.
\<close>

theorem opaque_sprite_replaces_pixels:
  assumes "rect h w 3 (screen st)" and "rect ch cw 4 (cursor st)"
    and "list_all (list_all (\<lambda>p. p ! 3 = 255)) (cursor st)"
  shows "\<exists>scr'. overlay_image_alpha st x y = Inr (st\<lparr>screen := scr'\<rparr>) \<and> rect h w 3 scr' \<and>
           (\<forall>r<h. \<forall>k<w. scr' ! r ! k =
              (if covered x y ch cw r k
               then take 3 (cursor st ! nat (int r - y) ! nat (int k - x))
               else screen st ! r ! k))"
proof -
  obtain scr' where res: "overlay_image_alpha st x y = Inr (st\<lparr>screen := scr'\<rparr>)"
    and r: "rect h w 3 scr'"
    and px: "\<forall>r<h. \<forall>k<w. scr' ! r ! k =
              (if covered x y ch cw r k
               then blend_pixel (screen st ! r ! k) (cursor st ! nat (int r - y) ! nat (int k - x))
               else screen st ! r ! k)"
    using overlay_rect [OF assms(1,2)] by blast
  have "scr' ! i ! j =
      (if covered x y ch cw i j
       then take 3 (cursor st ! nat (int i - y) ! nat (int j - x))
       else screen st ! i ! j)" if ij: "i < h" "j < w" for i j
  proof (cases "covered x y ch cw i j")
    case True
    note idx = covered_index [OF True]
    have "cursor st ! nat (int i - y) ! nat (int j - x) ! 3 = 255"
      using assms(2,3) idx by (simp add: rect_def list_all_length)
    then have "blend_pixel (screen st ! i ! j) (cursor st ! nat (int i - y) ! nat (int j - x))
        = take 3 (cursor st ! nat (int i - y) ! nat (int j - x))"
      using rect_px [OF assms(1) ij] rect_px [OF assms(2) idx]
      by (intro blend_pixel_opaque)
    then show ?thesis using px ij True by simp
  next
    case False
    then show ?thesis using px ij by simp
  qed
  then show ?thesis using res r by blast
qed

theorem opaque_sprite_replaces_pixels_witness:
  "rect 100 100 3 (screen \<lparr>screen = replicate 100 (replicate 100 [10, 20, 30]),
                            cursor = replicate 32 (replicate 32 [0, 0, 255, 255]),
                            stdout = []\<rparr>) \<and>
   rect 32 32 4 (cursor \<lparr>screen = replicate 100 (replicate 100 [10, 20, 30]),
                          cursor = replicate 32 (replicate 32 [0, 0, 255, 255]),
                          stdout = []\<rparr>) \<and>
   list_all (list_all (\<lambda>p. p ! 3 = 255))
     (cursor \<lparr>screen = replicate 100 (replicate 100 [10, 20, 30]),
              cursor = replicate 32 (replicate 32 [0, 0, 255, 255]),
              stdout = []\<rparr>) \<and>
   (\<exists>scr'. overlay_image_alpha
             \<lparr>screen = replicate 100 (replicate 100 [10, 20, 30]),
              cursor = replicate 32 (replicate 32 [0, 0, 255, 255]), stdout = []\<rparr> 90 90
           = Inr \<lparr>screen = scr', cursor = replicate 32 (replicate 32 [0, 0, 255, 255]),
                  stdout = []\<rparr> \<and>
          (\<forall>r<100. \<forall>k<100. scr' ! r ! k = (if 90 \<le> r \<and> 90 \<le> k then [0, 0, 255] else [10, 20, 30])))"
proof -
  let ?st = "\<lparr>screen = replicate 100 (replicate 100 [10, 20, 30 :: u8]),
              cursor = replicate 32 (replicate 32 [0, 0, 255, 255 :: u8]), stdout = []\<rparr>"
  have f: "rect 100 100 3 (screen ?st)" by (simp add: rect_replicate)
  have s: "rect 32 32 4 (cursor ?st)" by (simp add: rect_replicate)
  have o: "list_all (list_all (\<lambda>p. p ! 3 = 255)) (cursor ?st)" by (simp add: list_all_length)
  obtain scr' where res: "overlay_image_alpha ?st 90 90 = Inr (?st\<lparr>screen := scr'\<rparr>)"
    and px: "\<forall>r<100. \<forall>k<100. scr' ! r ! k =
              (if covered 90 90 32 32 r k
               then take 3 (cursor ?st ! nat (int r - 90) ! nat (int k - 90))
               else screen ?st ! r ! k)"
    using opaque_sprite_replaces_pixels [OF f s o, of 90 90] by blast
  have "scr' ! r ! k = (if 90 \<le> r \<and> 90 \<le> k then [0, 0, 255] else [10, 20, 30])"
    if "r < 100" "k < 100" for r k
  proof (cases "90 \<le> r \<and> 90 \<le> k")
    case True
    then have "covered 90 90 32 32 r k" "nat (int r - 90) < 32" "nat (int k - 90) < 32"
      using that by (auto simp: covered_def)
    then show ?thesis using px that True by simp
  next
    case False
    then have "\<not> covered 90 90 32 32 r k" by (auto simp: covered_def)
    then show ?thesis using px that False by simp
  qed
  then show ?thesis using f s o res by auto
qed

text \<open>
  Claim C10. For every frame, every sprite and every integer position the call returns with
  the sprite buffer as it was: only the frame (and, in the handler, the standard output) is
  written.
\<close>

theorem overlay_leaves_sprite:
  "\<exists>st'. overlay_image_alpha st x y = Inr st' \<and> cursor st' = cursor st"
proof -
  obtain st' where res: "overlay_image_alpha st x y = Inr st'"
    using overlay_returns by blast
  obtain sh sw where sh: "shape2 (screen st) = (sh, sw)" by (cases "shape2 (screen st)")
  obtain ch cw where ch: "shape2 (cursor st) = (ch, cw)" by (cases "shape2 (cursor st)")
  have "st' = st \<or> (\<exists>scr'. st' = st\<lparr>screen := scr'\<rparr>) \<or> (\<exists>out'. st' = st\<lparr>stdout := out'\<rparr>)"
    using res unfolding overlay_image_alpha_def Let_def sh ch prod.case
    by (auto split: sum.splits if_splits)
  then have "cursor st' = cursor st" by auto
  with res show ?thesis by blast
qed

section \<open>Facts about the setup steps and the loop\<close>

lemma endswith_iff: "endswith s suffix \<longleftrightarrow> (\<exists>stem. s = stem @ suffix)"
proof
  assume e: "endswith s suffix"
  have "s = take (length s - length suffix) s @ drop (length s - length suffix) s" by simp
  with e have "s = take (length s - length suffix) s @ suffix" by (simp add: endswith_def)
  then show "\<exists>stem. s = stem @ suffix" ..
next
  assume "\<exists>stem. s = stem @ suffix"
  then show "endswith s suffix" by (auto simp: endswith_def)
qed

lemma setup_monitor_out_of_range:
  assumes "arg_monitor a < 0 \<or> int (length (monitors ev)) \<le> arg_monitor a"
  shows "setup_monitor ev a =
           (Inl (SystemExit 1),
            [Error_invalid_monitor_index (arg_monitor a),
             Available_monitors_1_to (int (length (monitors ev)) - 1)])"
  using assms by (auto simp: setup_monitor_def)

lemma setup_monitor_in_range:
  assumes "0 \<le> arg_monitor a" and "arg_monitor a < int (length (monitors ev))"
  shows "setup_monitor ev a = (Inr (monitors ev ! nat (arg_monitor a)), [])"
  using assms by (simp add: setup_monitor_def)

lemma load_cursor_missing:
  assumes "\<not> path_exists ev (arg_cursor a)"
  shows "load_cursor ev a = (Inr None, [Info_default_cursor_not_found])"
  using assms by (simp add: load_cursor_def)

lemma load_cursor_unreadable:
  assumes "path_exists ev (arg_cursor a)" and "imread ev (arg_cursor a) = None"
  shows "load_cursor ev a = (Inl (SystemExit 1), [Error_could_not_load (arg_cursor a)])"
  using assms by (simp add: load_cursor_def)

text \<open>
  The rounding keeps the sign of a difference, so a cycle that took at least the period
  computes a sleep time that is not positive.
\<close>

lemma round_half_even_nonpos: "x \<le> 0 \<Longrightarrow> round_half_even x \<le> 0"
proof -
  assume x: "x \<le> 0"
  then have f: "\<lfloor>x\<rfloor> \<le> 0" by linarith
  show ?thesis
  proof (cases "\<lfloor>x\<rfloor> = 0")
    case True
    then have "0 \<le> x" by linarith
    with x have "x = 0" by simp
    then show ?thesis by (simp add: round_half_even_def)
  next
    case False
    with f have "\<lfloor>x\<rfloor> + 1 \<le> 0" by linarith
    then show ?thesis using f by (simp add: round_half_even_def Let_def)
  qed
qed

lemma fl_nonpos: "x \<le> 0 \<Longrightarrow> fl x \<le> 0"
proof -
  assume x: "x \<le> 0"
  define q where "q = (2::rat) powi (ilog2 \<bar>x\<bar> - 52)"
  have q: "0 < q" by (simp add: q_def)
  then have "x / q \<le> 0" using x by (simp add: divide_le_0_iff)
  then have "round_half_even (x / q) \<le> 0" by (rule round_half_even_nonpos)
  then have "(of_int (round_half_even (x / q)) :: rat) * q \<le> 0"
    using q by (simp add: mult_le_0_iff)
  then show ?thesis by (simp add: fl_def q_def Let_def)
qed

lemma duration_sleep_arg:
  "duration (sleep_arg frame_time c) = max 0 (f64_sub frame_time (elapsed c))"
  by (simp add: duration_def sleep_arg_def elapsed_def Let_def)

lemma sleep_arg_positive: "sleep_arg frame_time c = Some d \<Longrightarrow> 0 < d"
  by (auto simp: sleep_arg_def Let_def split: if_splits)

lemma sleep_arg_overrun: "frame_time \<le> elapsed c \<Longrightarrow> sleep_arg frame_time c = None"
  using fl_nonpos [of "frame_time - elapsed c"]
  by (simp add: sleep_arg_def elapsed_def f64_sub_def Let_def)

lemma draw_cursor_returns:
  "\<exists>frame out'. draw_cursor mon cursor_img c frame_bgr out = Inr (frame, out')"
proof (cases cursor_img)
  case None
  then show ?thesis by (simp add: draw_cursor_def)
next
  case (Some img)
  obtain cursor_x cursor_y where m: "mouse c = (cursor_x, cursor_y)" by (cases "mouse c")
  obtain st' where "overlay_image_alpha \<lparr>screen = frame_bgr, cursor = img, stdout = out\<rparr>
      (cursor_x - mon_left mon) (cursor_y - mon_top mon) = Inr st'"
    using overlay_returns by blast
  then show ?thesis by (simp add: draw_cursor_def Some m)
qed

lemma record_loop_trace:
  assumes "record_loop frame_time mon cursor_img cycles rec = (r, s)"
  shows "sleeps r = sleeps rec @
            map (sleep_arg frame_time) (takeWhile (\<lambda>c. \<not> stop_requested c) cycles) \<and>
         length (video r) = length (video rec) +
            length (takeWhile (\<lambda>c. \<not> stop_requested c) cycles) +
            (if s = Stopped then 1 else 0) \<and>
         (s = Running \<or> s = Stopped)"
  using assms
proof (induction cycles arbitrary: rec)
  case Nil
  then show ?case by auto
next
  case (Cons c cs)
  obtain frame out where d: "draw_cursor mon cursor_img c (cvtColor_BGRA2BGR (grab c)) (printed rec)
      = Inr (frame, out)"
    using draw_cursor_returns by blast
  define rec1 where "rec1 = rec\<lparr>video := video rec @ [frame], preview := preview rec @ [frame],
      printed := out\<rparr>"
  show ?case
  proof (cases "stop_requested c")
    case True
    then have "record_loop frame_time mon cursor_img (c # cs) rec = (rec1, Stopped)"
      by (simp add: d rec1_def Let_def)
    with Cons.prems have "r = rec1" "s = Stopped" by simp_all
    then show ?thesis using True by (simp add: rec1_def)
  next
    case False
    then have "record_loop frame_time mon cursor_img (c # cs) rec =
        record_loop frame_time mon cursor_img cs
          (rec1\<lparr>sleeps := sleeps rec1 @ [sleep_arg frame_time c]\<rparr>)"
      by (simp add: d rec1_def Let_def)
    with Cons.prems have "record_loop frame_time mon cursor_img cs
          (rec1\<lparr>sleeps := sleeps rec1 @ [sleep_arg frame_time c]\<rparr>) = (r, s)" by simp
    from Cons.IH [OF this] show ?thesis using False by (simp add: rec1_def)
  qed
qed

section \<open>The claims about the program around the compositor\<close>

text \<open>
  Claim C4 says that a cursor path given on the command line whose file is missing ends
  the program with exit code 1 before any capture. The program does not do that: line 145
  tests only whether the path exists, and the \<^verbatim>\<open>else\<close> branch, which the comment of line
  158 reserves for the default \<^verbatim>\<open>cursor.png\<close>, is taken for every missing path. With
  \<^verbatim>\<open>--cursor pointer.png\<close> and no such file the program prints the note about the default
  cursor, records the frame without an overlay and ends with exit code 0.
\<close>

theorem explicit_missing_cursor_is_not_fatal:
  "load_cursor
     \<lparr>path_exists = (\<lambda>p. False), imread = (\<lambda>p. None), resize = (\<lambda>img sz. Inr img),
      monitors = [\<lparr>mon_left = 0, mon_top = 0, mon_width = 3840, mon_height = 1080\<rparr>,
                  \<lparr>mon_left = 0, mon_top = 0, mon_width = 1920, mon_height = 1080\<rparr>],
      VideoWriter_fourcc =
        (\<lambda>c1 c2 c3 c4. of_char c1 + 256 * of_char c2 + 65536 * of_char c3
           + 16777216 * of_char c4)\<rparr>
     (setup_arguments
        \<lparr>opt_monitor = None, opt_fps = None, opt_cursor = Some ''pointer.png'',
         opt_output = None, opt_size = None, opt_no_cursor = False\<rparr>)
   = (Inr None, [Info_default_cursor_not_found]) \<and>
   main
     \<lparr>path_exists = (\<lambda>p. False), imread = (\<lambda>p. None), resize = (\<lambda>img sz. Inr img),
      monitors = [\<lparr>mon_left = 0, mon_top = 0, mon_width = 3840, mon_height = 1080\<rparr>,
                  \<lparr>mon_left = 0, mon_top = 0, mon_width = 1920, mon_height = 1080\<rparr>],
      VideoWriter_fourcc =
        (\<lambda>c1 c2 c3 c4. of_char c1 + 256 * of_char c2 + 65536 * of_char c3
           + 16777216 * of_char c4)\<rparr>
     \<lparr>opt_monitor = None, opt_fps = None, opt_cursor = Some ''pointer.png'',
      opt_output = None, opt_size = None, opt_no_cursor = False\<rparr>
     [\<lparr>t_start = 0, grab = [[[1, 2, 3, 255]]], mouse = (0, 0), key = 113,
       stop_recording = False, live_visible = 1, t_end = 1 / 64\<rparr>]
   = \<lparr>exit_code = Some 0, codec = Some 1983148141, frames = [[[[1, 2, 3]]]], pauses = [],
      output_lines =
        [Info_default_cursor_not_found,
         Recording_monitor 1 1920 1080 ''screen_record.mp4'' 30,
         Press_F5_to_stop, Cleaning_up_and_saving_video,
         Video_saved_to ''screen_record.mp4'']\<rparr>"
  by (simp add: main_def setup_arguments_def load_cursor_def setup_monitor_def py_float_div_def
      empty_recording_def draw_cursor_def cvtColor_BGRA2BGR_def last_axis_upto_def
      stop_requested_def get_codec_def endswith_def Let_def)

text \<open>
  Claim C5 says that monitor index 0 is rejected. The guard of line 165 rejects an index
  below 0 or beyond the list, so index 0, the union of all monitors, passes, although the
  message of line 167 names the range from 1. With \<^verbatim>\<open>--monitor 0\<close> the program records the
  3840 by 1080 union region and ends with exit code 0.
\<close>

theorem monitor_index_zero_is_accepted:
  "setup_monitor
     \<lparr>path_exists = (\<lambda>p. False), imread = (\<lambda>p. None), resize = (\<lambda>img sz. Inr img),
      monitors = [\<lparr>mon_left = 0, mon_top = 0, mon_width = 3840, mon_height = 1080\<rparr>,
                  \<lparr>mon_left = 0, mon_top = 0, mon_width = 1920, mon_height = 1080\<rparr>,
                  \<lparr>mon_left = 1920, mon_top = 0, mon_width = 1920, mon_height = 1080\<rparr>],
      VideoWriter_fourcc =
        (\<lambda>c1 c2 c3 c4. of_char c1 + 256 * of_char c2 + 65536 * of_char c3
           + 16777216 * of_char c4)\<rparr>
     (setup_arguments
        \<lparr>opt_monitor = Some 0, opt_fps = None, opt_cursor = None, opt_output = None,
         opt_size = None, opt_no_cursor = False\<rparr>)
   = (Inr \<lparr>mon_left = 0, mon_top = 0, mon_width = 3840, mon_height = 1080\<rparr>, []) \<and>
   main
     \<lparr>path_exists = (\<lambda>p. False), imread = (\<lambda>p. None), resize = (\<lambda>img sz. Inr img),
      monitors = [\<lparr>mon_left = 0, mon_top = 0, mon_width = 3840, mon_height = 1080\<rparr>,
                  \<lparr>mon_left = 0, mon_top = 0, mon_width = 1920, mon_height = 1080\<rparr>,
                  \<lparr>mon_left = 1920, mon_top = 0, mon_width = 1920, mon_height = 1080\<rparr>],
      VideoWriter_fourcc =
        (\<lambda>c1 c2 c3 c4. of_char c1 + 256 * of_char c2 + 65536 * of_char c3
           + 16777216 * of_char c4)\<rparr>
     \<lparr>opt_monitor = Some 0, opt_fps = None, opt_cursor = None, opt_output = None,
      opt_size = None, opt_no_cursor = False\<rparr>
     [\<lparr>t_start = 0, grab = [[[1, 2, 3, 255]]], mouse = (0, 0), key = 113,
       stop_recording = False, live_visible = 1, t_end = 1 / 64\<rparr>]
   = \<lparr>exit_code = Some 0, codec = Some 1983148141, frames = [[[[1, 2, 3]]]], pauses = [],
      output_lines =
        [Info_default_cursor_not_found,
         Recording_monitor 0 3840 1080 ''screen_record.mp4'' 30,
         Press_F5_to_stop, Cleaning_up_and_saving_video,
         Video_saved_to ''screen_record.mp4'']\<rparr>"
  by (simp add: main_def setup_arguments_def load_cursor_def setup_monitor_def py_float_div_def
      empty_recording_def draw_cursor_def cvtColor_BGRA2BGR_def last_axis_upto_def
      stop_requested_def get_codec_def endswith_def Let_def)

text \<open>
  Claim C6. With \<open>period = 1 / fps\<close>, every cycle that does not end the loop sleeps for
  \<open>max 0 (period - elapsed)\<close>, where \<open>elapsed\<close> is the difference of the two clock readings
  of that cycle, all in binary64. A cycle that took the period or longer does not sleep at
  all, no argument of \<^verbatim>\<open>time.sleep\<close> is zero or negative, and every cycle that ran wrote
  exactly one frame: none is dropped to catch up.
\<close>

theorem pacing_sleep_is_clamped_remainder:
  assumes "py_float_div 1 fps = Inr period"
    and "record_loop period mon cursor_img cycles (empty_recording out) = (r, s)"
  shows "map duration (sleeps r) =
           map (\<lambda>c. max 0 (f64_sub period (elapsed c)))
             (takeWhile (\<lambda>c. \<not> stop_requested c) cycles) \<and>
         (\<forall>i<length (sleeps r). period \<le> elapsed (cycles ! i) \<longrightarrow> sleeps r ! i = None) \<and>
         (\<forall>d. Some d \<in> set (sleeps r) \<longrightarrow> 0 < d) \<and>
         length (video r) = length (sleeps r) + (if s = Stopped then 1 else 0) \<and>
         period = f64_div 1 fps"
proof -
  let ?run = "takeWhile (\<lambda>c. \<not> stop_requested c) cycles"
  have tr: "sleeps r = map (sleep_arg period) ?run"
    "length (video r) = length ?run + (if s = Stopped then 1 else 0)"
    using record_loop_trace [OF assms(2)] by (simp_all add: empty_recording_def)
  have a: "map duration (sleeps r) = map (\<lambda>c. max 0 (f64_sub period (elapsed c))) ?run"
    by (simp add: tr(1) duration_sleep_arg)
  have b: "sleeps r ! i = None" if "i < length (sleeps r)" "period \<le> elapsed (cycles ! i)" for i
  proof -
    have i: "i < length ?run" using that(1) by (simp add: tr(1))
    then have "?run ! i = cycles ! i" by (rule takeWhile_nth)
    then show ?thesis using i that(2) by (simp add: tr(1) sleep_arg_overrun)
  qed
  have c: "0 < d" if "Some d \<in> set (sleeps r)" for d
    using that by (auto simp: tr(1) dest: sleep_arg_positive sym)
  have d: "period = f64_div 1 fps"
    using assms(1) by (auto simp: py_float_div_def split: if_splits)
  show ?thesis using a b c d tr by simp
qed

theorem pacing_sleep_is_clamped_remainder_witness:
  "py_float_div 1 30 = Inr (4803839602528529 / 144115188075855872) \<and>
   record_loop (4803839602528529 / 144115188075855872)
     \<lparr>mon_left = 0, mon_top = 0, mon_width = 1, mon_height = 1\<rparr> None
     [\<lparr>t_start = 0, grab = [[[1, 2, 3, 255]]], mouse = (0, 0), key = - 1,
       stop_recording = False, live_visible = 1, t_end = 1 / 64\<rparr>,
      \<lparr>t_start = 1, grab = [[[4, 5, 6, 255]]], mouse = (0, 0), key = - 1,
       stop_recording = False, live_visible = 1, t_end = 2\<rparr>,
      \<lparr>t_start = 3, grab = [[[7, 8, 9, 255]]], mouse = (0, 0), key = 113,
       stop_recording = False, live_visible = 1, t_end = 4\<rparr>]
     (empty_recording [])
   = (\<lparr>video = [[[[1, 2, 3]]], [[[4, 5, 6]]], [[[7, 8, 9]]]],
       preview = [[[[1, 2, 3]]], [[[4, 5, 6]]], [[[7, 8, 9]]]],
       sleeps = [Some (2552039788843281 / 144115188075855872), None],
       printed = []\<rparr>, Stopped) \<and>
   map duration [Some (2552039788843281 / 144115188075855872), None]
     = [2552039788843281 / 144115188075855872, 0] \<and>
   4803839602528529 / 144115188075855872
     \<le> elapsed \<lparr>t_start = 1, grab = [[[4, 5, 6, 255]]], mouse = (0, 0), key = - 1,
                  stop_recording = False, live_visible = 1, t_end = 2\<rparr> \<and>
   length [[[[1, 2, 3 :: u8]]], [[[4, 5, 6]]], [[[7, 8, 9]]]]
     = length [Some (2552039788843281 / 144115188075855872 :: f64), None] + 1"
proof -
  have p: "py_float_div 1 30 = Inr (4803839602528529 / 144115188075855872)"
    by code_simp
  have l: "record_loop (4803839602528529 / 144115188075855872)
     \<lparr>mon_left = 0, mon_top = 0, mon_width = 1, mon_height = 1\<rparr> None
     [\<lparr>t_start = 0, grab = [[[1, 2, 3, 255]]], mouse = (0, 0), key = - 1,
       stop_recording = False, live_visible = 1, t_end = 1 / 64\<rparr>,
      \<lparr>t_start = 1, grab = [[[4, 5, 6, 255]]], mouse = (0, 0), key = - 1,
       stop_recording = False, live_visible = 1, t_end = 2\<rparr>,
      \<lparr>t_start = 3, grab = [[[7, 8, 9, 255]]], mouse = (0, 0), key = 113,
       stop_recording = False, live_visible = 1, t_end = 4\<rparr>]
     (empty_recording [])
   = (\<lparr>video = [[[[1, 2, 3]]], [[[4, 5, 6]]], [[[7, 8, 9]]]],
       preview = [[[[1, 2, 3]]], [[[4, 5, 6]]], [[[7, 8, 9]]]],
       sleeps = [Some (2552039788843281 / 144115188075855872), None],
       printed = []\<rparr>, Stopped)"
    by code_simp
  show ?thesis
    using pacing_sleep_is_clamped_remainder [OF p l] p l
    by (simp add: duration_def elapsed_def f64_sub_def fl_1)
qed

text \<open>
  Claim C9. For every output file name \<^verbatim>\<open>get_codec\<close> returns the code of \<^verbatim>\<open>mp4v\<close> when
  the name ends with \<^verbatim>\<open>.mp4\<close> and the code of \<^verbatim>\<open>XVID\<close> for every other name; as the two
  codes differ, the first is returned exactly for the names that end with \<^verbatim>\<open>.mp4\<close>.
\<close>

theorem get_codec_by_extension:
  "((\<exists>stem. filename = stem @ ''.mp4'') \<longrightarrow>
      get_codec fourcc filename = fourcc CHR ''m'' CHR ''p'' CHR ''4'' CHR ''v'') \<and>
   (\<not> (\<exists>stem. filename = stem @ ''.mp4'') \<longrightarrow>
      get_codec fourcc filename = fourcc CHR ''X'' CHR ''V'' CHR ''I'' CHR ''D'') \<and>
   (fourcc CHR ''m'' CHR ''p'' CHR ''4'' CHR ''v'' \<noteq> fourcc CHR ''X'' CHR ''V'' CHR ''I'' CHR ''D'' \<longrightarrow>
      (get_codec fourcc filename = fourcc CHR ''m'' CHR ''p'' CHR ''4'' CHR ''v''
         \<longleftrightarrow> (\<exists>stem. filename = stem @ ''.mp4'')))"
  unfolding get_codec_def endswith_iff by auto

theorem get_codec_by_extension_witness:
  "(\<exists>stem. ''screen_record.mp4'' = stem @ ''.mp4'') \<and>
   get_codec (\<lambda>c1 c2 c3 c4. of_char c1 + 256 * of_char c2 + 65536 * of_char c3
                 + 16777216 * of_char c4 :: int) ''screen_record.mp4'' = 1983148141 \<and>
   \<not> (\<exists>stem. ''recording.avi'' = stem @ ''.mp4'') \<and>
   get_codec (\<lambda>c1 c2 c3 c4. of_char c1 + 256 * of_char c2 + 65536 * of_char c3
                 + 16777216 * of_char c4 :: int) ''recording.avi'' = 1145656920 \<and>
   \<not> (\<exists>stem. ''clip.MP4'' = stem @ ''.mp4'')"
proof -
  let ?fourcc = "\<lambda>c1 c2 c3 c4. of_char c1 + 256 * of_char c2 + 65536 * of_char c3
                   + 16777216 * of_char c4 :: int"
  have yes: "\<exists>stem. ''screen_record.mp4'' = stem @ ''.mp4''"
    by (rule exI [of _ "''screen_record''"]) simp
  have no: "\<not> (\<exists>stem. ''recording.avi'' = stem @ ''.mp4'')"
    unfolding endswith_iff [symmetric] by (simp add: endswith_def)
  have no': "\<not> (\<exists>stem. ''clip.MP4'' = stem @ ''.mp4'')"
    unfolding endswith_iff [symmetric] by (simp add: endswith_def)
  show ?thesis
    using get_codec_by_extension [of "''screen_record.mp4''" ?fourcc]
      get_codec_by_extension [of "''recording.avi''" ?fourcc] yes no no'
    by simp
qed

end
